theory Spec2Isabelle
  imports Complex_Main "HOL-Library.AList" "HOL-Library.Sublist" "HOL-Library.Multiset"
begin

section \<open>JavaScript values used by the crawler and the tab pool\<close>

text \<open>
  Strings are character lists.  A JavaScript \<open>Set<string>\<close> is the list of its
  elements in insertion order: \<open>has\<close> is membership, \<open>add\<close> appends an element that
  is not yet there, \<open>size\<close> is the length.  A JavaScript \<open>Map<string, V>\<close> is an
  association list in insertion order: \<open>set\<close> is \<open>AList.update\<close> (overwrite in place, or
  append a new key), \<open>delete\<close> is \<open>AList.delete\<close>, \<open>get\<close> is \<open>map_of\<close>, \<open>size\<close> is the
  length.  Numbers that count things are integers.
\<close>

definition set_has :: "string list \<Rightarrow> string \<Rightarrow> bool" where
  "set_has xs x = (x \<in> set xs)"

definition set_add :: "string list \<Rightarrow> string \<Rightarrow> string list" where
  "set_add xs x = (if x \<in> set xs then xs else xs @ [x])"

text \<open>\<open>s.includes(pattern)\<close>: \<open>pattern\<close> occurs in \<open>s\<close> as a contiguous substring.\<close>

definition includes_str :: "string \<Rightarrow> string \<Rightarrow> bool" where
  "includes_str s pattern = sublist pattern s"

text \<open>
  \<open>pathname.replace(/\/+/g, '/')\<close>: every maximal run of slashes is replaced by one
  slash, scanning from the left.
\<close>

function replace_slashes :: "string \<Rightarrow> string" where
  "replace_slashes [] = []"
| "replace_slashes (c # cs) =
     (if c = CHR ''/'' then CHR ''/'' # replace_slashes (dropWhile (\<lambda>d. d = CHR ''/'') cs)
      else c # replace_slashes cs)"
  by pat_completeness auto
termination
  by (relation "measure length") (auto simp: le_imp_less_Suc length_dropWhile_le)

text \<open>
  An optional property of an options object: the key is absent, present with the value
  \<open>undefined\<close>, or present with a value.  \<open>{ ...defaults, ...options }\<close> takes the
  default only where the key is absent.
\<close>

datatype 'a optional = Absent | Undefined | Given 'a

definition spread :: "'a optional \<Rightarrow> 'a optional \<Rightarrow> 'a optional" where
  "spread dflt given = (case given of Absent \<Rightarrow> dflt | _ \<Rightarrow> given)"

text \<open>\<open>n || d\<close> for a number: \<open>undefined\<close> and \<open>0\<close> are falsy.\<close>

definition num_or :: "int optional \<Rightarrow> int \<Rightarrow> int" where
  "num_or p d = (case p of Given n \<Rightarrow> (if n = 0 then d else n) | _ \<Rightarrow> d)"

text \<open>
  A JavaScript number where more than a count is at stake (\<open>maxPages\<close> comes from the
  caller as it is): a finite number, which is a rational as every double is, \<open>Infinity\<close>,
  \<open>-Infinity\<close> or \<open>NaN\<close>.  \<open>js_or n d\<close> is \<open>n || d\<close>: \<open>undefined\<close>, \<open>0\<close> and \<open>NaN\<close> are falsy.
  \<open>js_ge a b\<close> is \<open>a >= b\<close>, which is false when an operand is \<open>NaN\<close>.
\<close>

datatype js_number = Finite rat | PosInfinity | NegInfinity | NaN

definition js_or :: "js_number optional \<Rightarrow> js_number \<Rightarrow> js_number" where
  "js_or p d = (case p of Given n \<Rightarrow> (if n = Finite 0 \<or> n = NaN then d else n) | _ \<Rightarrow> d)"

definition js_ge :: "js_number \<Rightarrow> js_number \<Rightarrow> bool" where
  "js_ge a b =
     (case a of
        NaN \<Rightarrow> False
      | PosInfinity \<Rightarrow> b \<noteq> NaN
      | NegInfinity \<Rightarrow> b = NegInfinity
      | Finite x \<Rightarrow>
          (case b of Finite y \<Rightarrow> y \<le> x | NegInfinity \<Rightarrow> True | PosInfinity \<Rightarrow> False
           | NaN \<Rightarrow> False))"

section \<open>The platform's URL class\<close>

text \<open>
  The crawler uses the global \<open>URL\<close> class: the constructor (which throws on a string
  that is not a URL), the getters \<open>hostname\<close> and \<open>pathname\<close>, the setters \<open>hash\<close> and
  \<open>pathname\<close>, and \<open>toString()\<close>.  The class belongs to the runtime, so the crawler is
  modelled over an arbitrary implementation of this interface; \<open>'u\<close> is the type of
  URL objects, and a setter returns the updated object.
\<close>

record 'u url_api =
  url_new :: "string \<Rightarrow> 'u option"
  url_hostname :: "'u \<Rightarrow> string"
  url_pathname :: "'u \<Rightarrow> string"
  url_set_hash :: "string \<Rightarrow> 'u \<Rightarrow> 'u"
  url_set_pathname :: "string \<Rightarrow> 'u \<Rightarrow> 'u"
  url_toString :: "'u \<Rightarrow> string"

subsection \<open>A URL class after the URL Standard\<close>

text \<open>
  The URL record of the URL Standard and, on it, the members of the class the crawler
  uses, each after the standard's algorithm: the \<open>hostname\<close> and \<open>pathname\<close> getters, the
  \<open>hash\<close> setter, the \<open>pathname\<close> setter (the basic URL parser started in its path start
  state with a state override) and the URL serializer.  Strings stand for their UTF-8
  bytes, so percent-encoding works byte by byte.  The parser behind the constructor is a
  parameter.
\<close>

datatype url_path = Opaque string | Segments "string list"

record URL =
  u_scheme :: string
  u_username :: string
  u_password :: string
  u_host :: "string option"
  u_port :: "string option"
  u_path :: url_path
  u_query :: "string option"
  u_fragment :: "string option"

definition is_special :: "string \<Rightarrow> bool" where
  "is_special sch = (sch \<in> set [''ftp'', ''file'', ''http'', ''https'', ''ws'', ''wss''])"

definition hex_digit :: "nat \<Rightarrow> char" where
  "hex_digit n = ''0123456789ABCDEF'' ! (n mod 16)"

text \<open>The path percent-encode set, and UTF-8 percent-encoding of one byte with it.\<close>

definition in_path_encode_set :: "char \<Rightarrow> bool" where
  "in_path_encode_set c =
     ((of_char c :: nat) \<le> 0x1F \<or> (of_char c :: nat) > 0x7E
      \<or> c \<in> set [CHR '' '', CHR 0x22, CHR ''#'', CHR ''<'', CHR ''>'',
                   CHR ''?'', CHR ''^'', CHR 0x60, CHR ''{'', CHR ''}''])"

definition percent_encode :: "char \<Rightarrow> string" where
  "percent_encode c =
     (if in_path_encode_set c
      then [CHR ''%'', hex_digit ((of_char c :: nat) div 16), hex_digit (of_char c :: nat)]
      else [c])"

definition is_single_dot :: "string \<Rightarrow> bool" where
  "is_single_dot buf = (buf \<in> set [''.'', ''%2e'', ''%2E''])"

definition is_double_dot :: "string \<Rightarrow> bool" where
  "is_double_dot buf =
     (buf \<in> set [''..'', ''.%2e'', ''.%2E'', ''%2e.'', ''%2E.'',
                  ''%2e%2e'', ''%2e%2E'', ''%2E%2e'', ''%2E%2E''])"

definition is_lower_alpha :: "char \<Rightarrow> bool" where
  "is_lower_alpha c = (0x61 \<le> (of_char c :: nat) \<and> (of_char c :: nat) \<le> 0x7A)"

definition is_ascii_alpha :: "char \<Rightarrow> bool" where
  "is_ascii_alpha c =
     (is_lower_alpha c \<or> (0x41 \<le> (of_char c :: nat) \<and> (of_char c :: nat) \<le> 0x5A))"

definition is_drive_letter :: "string \<Rightarrow> bool" where
  "is_drive_letter buf =
     (case buf of [a, b] \<Rightarrow> is_ascii_alpha a \<and> (b = CHR '':'' \<or> b = CHR ''|'') | _ \<Rightarrow> False)"

definition is_normalized_drive_letter :: "string \<Rightarrow> bool" where
  "is_normalized_drive_letter buf =
     (case buf of [a, b] \<Rightarrow> is_ascii_alpha a \<and> b = CHR '':'' | _ \<Rightarrow> False)"

text \<open>Shorten a URL's path.\<close>

definition shorten :: "string \<Rightarrow> string list \<Rightarrow> string list" where
  "shorten sch p =
     (if sch = ''file'' \<and> length p = 1 \<and> is_normalized_drive_letter (p ! 0) then p
      else butlast p)"

text \<open>
  Path state.  \<open>path_buffers\<close> reads the input up to each separator (\<open>/\<close>, and \<open>\\<close> in a
  special URL), percent-encoding into the buffer; with a state override \<open>?\<close> and \<open>#\<close> are
  ordinary code points.  \<open>path_segment\<close> is what the state does with a finished buffer
  (\<open>at_eof\<close>: the buffer ended at the end of the input), \<open>path_state\<close> runs it over the
  buffers.
\<close>

definition is_separator :: "bool \<Rightarrow> char \<Rightarrow> bool" where
  "is_separator special c = (c = CHR ''/'' \<or> (special \<and> c = CHR 0x5C))"

fun path_buffers :: "bool \<Rightarrow> string \<Rightarrow> string \<Rightarrow> string list" where
  "path_buffers special buf [] = [buf]"
| "path_buffers special buf (c # cs) =
     (if is_separator special c then buf # path_buffers special [] cs
      else path_buffers special (buf @ percent_encode c) cs)"

definition path_segment :: "string \<Rightarrow> bool \<Rightarrow> string list \<Rightarrow> string \<Rightarrow> string list" where
  "path_segment sch at_eof p buf =
     (if is_double_dot buf then shorten sch p @ (if at_eof then [[]] else [])
      else if is_single_dot buf then p @ (if at_eof then [[]] else [])
      else if sch = ''file'' \<and> p = [] \<and> is_drive_letter buf then p @ [[buf ! 0, CHR '':'']]
      else p @ [buf])"

fun path_state :: "string \<Rightarrow> string list \<Rightarrow> string list \<Rightarrow> string list" where
  "path_state sch p [] = p"
| "path_state sch p (buf # bufs) = path_state sch (path_segment sch (bufs = []) p buf) bufs"

text \<open>Path start state with a state override, on an emptied path.\<close>

definition path_start :: "string \<Rightarrow> string option \<Rightarrow> string \<Rightarrow> string list" where
  "path_start sch hst input =
     (if is_special sch then
        path_state sch []
          (path_buffers True []
             (case input of [] \<Rightarrow> []
              | c # cs \<Rightarrow> if c = CHR ''/'' \<or> c = CHR 0x5C then cs else input))
      else if input \<noteq> [] then
        path_state sch []
          (path_buffers False [] (if hd input = CHR ''/'' then tl input else input))
      else if hst = None then [[]] else [])"

definition is_tab_or_newline :: "char \<Rightarrow> bool" where
  "is_tab_or_newline c = (c = CHR 0x09 \<or> c = CHR 0x0A \<or> c = CHR 0x0D)"

text \<open>The URL path serializer, which is the \<open>pathname\<close> getter.\<close>

definition serialize_path :: "url_path \<Rightarrow> string" where
  "serialize_path p =
     (case p of Opaque s \<Rightarrow> s | Segments segs \<Rightarrow> concat (map (\<lambda>seg. CHR ''/'' # seg) segs))"

definition get_pathname :: "URL \<Rightarrow> string" where
  "get_pathname u = serialize_path (u_path u)"

definition get_hostname :: "URL \<Rightarrow> string" where
  "get_hostname u = (case u_host u of None \<Rightarrow> [] | Some h \<Rightarrow> h)"

text \<open>
  The \<open>pathname\<close> setter: nothing on an opaque path; otherwise the path is emptied and
  the value, without tabs and newlines, is parsed from the path start state.
\<close>

definition set_pathname :: "string \<Rightarrow> URL \<Rightarrow> URL" where
  "set_pathname v u =
     (case u_path u of
        Opaque s \<Rightarrow> u
      | Segments segs \<Rightarrow>
          u\<lparr>u_path := Segments (path_start (u_scheme u) (u_host u)
                                  (filter (\<lambda>c. \<not> is_tab_or_newline c) v))\<rparr>)"

text \<open>
  The \<open>hash\<close> setter.  With the empty string the fragment becomes null and trailing
  spaces are stripped from an opaque path when the query is null too.  (The crawler only
  ever assigns the empty string; another value is left as the fragment verbatim.)
\<close>

definition strip_trailing_spaces :: "string \<Rightarrow> string" where
  "strip_trailing_spaces s = rev (dropWhile (\<lambda>c. c = CHR '' '') (rev s))"

definition set_hash :: "string \<Rightarrow> URL \<Rightarrow> URL" where
  "set_hash v u =
     (if v = [] then
        (case u_path u of
           Opaque s \<Rightarrow>
             (if u_query u = None
              then u\<lparr>u_fragment := None, u_path := Opaque (strip_trailing_spaces s)\<rparr>
              else u\<lparr>u_fragment := None\<rparr>)
         | Segments segs \<Rightarrow> u\<lparr>u_fragment := None\<rparr>)
      else u\<lparr>u_fragment := Some (if hd v = CHR ''#'' then tl v else v)\<rparr>)"

text \<open>The URL serializer, which is \<open>toString()\<close>.\<close>

definition serialize_url :: "URL \<Rightarrow> string" where
  "serialize_url u =
     u_scheme u @ '':''
     @ (case u_host u of
          None \<Rightarrow> []
        | Some h \<Rightarrow>
            ''//''
            @ (if u_username u \<noteq> [] \<or> u_password u \<noteq> []
               then u_username u @ (if u_password u \<noteq> [] then '':'' @ u_password u else []) @ ''@''
               else [])
            @ h
            @ (case u_port u of None \<Rightarrow> [] | Some p \<Rightarrow> '':'' @ p))
     @ (case u_path u of
          Opaque s \<Rightarrow> []
        | Segments segs \<Rightarrow>
            if u_host u = None \<and> length segs > 1 \<and> segs ! 0 = [] then ''/.'' else [])
     @ serialize_path (u_path u)
     @ (case u_query u of None \<Rightarrow> [] | Some q \<Rightarrow> ''?'' @ q)
     @ (case u_fragment u of None \<Rightarrow> [] | Some f \<Rightarrow> ''#'' @ f)"

definition standard_url :: "(string \<Rightarrow> URL option) \<Rightarrow> URL url_api" where
  "standard_url parser =
     \<lparr>url_new = parser, url_hostname = get_hostname, url_pathname = get_pathname,
      url_set_hash = set_hash, url_set_pathname = set_pathname,
      url_toString = serialize_url\<rparr>"

text \<open>
  A parser for plain URLs, used to run the crawler on concrete inputs: an \<open>http\<close> or
  \<open>https\<close> URL \<open>scheme://host/path?query#fragment\<close> whose host is made of lower-case
  letters, dots and hyphens, or a URL with an opaque path (\<open>mailto:someone\<close>); all of
  printable ASCII that needs no percent-encoding.  It rejects every other string, also
  ones the platform's parser accepts.
\<close>

definition is_plain_char :: "char \<Rightarrow> bool" where
  "is_plain_char c =
     ((of_char c :: nat) > 0x20 \<and> (of_char c :: nat) < 0x7F
      \<and> c \<notin> set [CHR 0x22, CHR ''<'', CHR ''>'', CHR ''^'', CHR 0x60, CHR ''{'', CHR ''}'',
                   CHR 0x5C, CHR ''|'', CHR ''['', CHR '']'', CHR 0x27])"

definition is_host_char :: "char \<Rightarrow> bool" where
  "is_host_char c = (is_lower_alpha c \<or> c = CHR ''.'' \<or> c = CHR ''-'')"

definition after_char :: "char \<Rightarrow> string \<Rightarrow> string option" where
  "after_char d s =
     (case dropWhile (\<lambda>c. c \<noteq> d) s of [] \<Rightarrow> None | c # rest \<Rightarrow> Some rest)"

definition plain_parser :: "string \<Rightarrow> URL option" where
  "plain_parser input =
     (let sch = takeWhile (\<lambda>c. c \<noteq> CHR '':'') input;
          frag = after_char CHR ''#'' input;
          no_frag = takeWhile (\<lambda>c. c \<noteq> CHR ''#'') input;
          qry = after_char CHR ''?'' no_frag;
          body = drop (length sch + 1) (takeWhile (\<lambda>c. c \<noteq> CHR ''?'') no_frag)
      in if \<not> list_all is_plain_char input \<or> sch = [] \<or> length sch = length input
            \<or> \<not> list_all is_lower_alpha sch
         then None
         else if sch = ''http'' \<or> sch = ''https'' then
           (let hst = takeWhile (\<lambda>c. c \<noteq> CHR ''/'') (drop 2 body)
            in if take 2 body \<noteq> ''//'' \<or> hst = [] \<or> \<not> list_all is_host_char hst
                  \<or> \<not> is_ascii_alpha (last hst) \<or> \<not> is_ascii_alpha (hd hst) then None
               else Some \<lparr>u_scheme = sch, u_username = [], u_password = [],
                          u_host = Some hst, u_port = None,
                          u_path = Segments (path_start sch (Some hst) (drop (2 + length hst) body)),
                          u_query = qry, u_fragment = frag\<rparr>)
         else if is_special sch \<or> take 1 body = ''/'' then None
         else Some \<lparr>u_scheme = sch, u_username = [], u_password = [], u_host = None,
                    u_port = None, u_path = Opaque body, u_query = qry, u_fragment = frag\<rparr>)"

definition plain_url :: "URL url_api" where
  "plain_url = standard_url plain_parser"

section \<open>SpiderCrawl (modules/spider\_crawl.ts)\<close>

record LinkData =
  link_url :: string
  link_text :: string
  link_title :: "string option"
  isInternal :: bool

record SpiderCrawlOptions =
  maxDepth :: "int optional"
  maxPages :: "js_number optional"
  sameDomain :: "bool optional"
  excludePatterns :: "string list optional"
  includePatterns :: "string list optional"
  delay :: "int optional"

record SpiderCrawlResult =
  success :: bool
  result_linkMap :: "(string \<times> LinkData list) list"
  totalPages :: nat
  totalLinks :: nat
  error_message :: "string option"
  baseUrl :: string

text \<open>The fields of a \<open>SpiderCrawl\<close> instance (\<open>isProcessing\<close> is only ever reset).\<close>

record SpiderCrawl =
  visitedUrls :: "string list"
  linkMap :: "(string \<times> LinkData list) list"
  queue :: "string list"

subsection \<open>normalizeUrl\<close>

datatype js_error = InvalidURL

text \<open>The body of the \<open>try\<close> block; \<open>Inl\<close> is the exception of \<open>new URL(url)\<close>.\<close>

definition normalizeUrl_try :: "'u url_api \<Rightarrow> string \<Rightarrow> js_error + string" where
  "normalizeUrl_try P url =
     (case url_new P url of
        None \<Rightarrow> Inl InvalidURL
      | Some urlObj \<Rightarrow>
          (let u1 = url_set_hash P [] urlObj;
               u2 = url_set_pathname P (replace_slashes (url_pathname P u1)) u1
           in Inr (url_toString P u2)))"

definition normalizeUrl :: "'u url_api \<Rightarrow> string \<Rightarrow> string" where
  "normalizeUrl P url = (case normalizeUrl_try P url of Inl e \<Rightarrow> url | Inr s \<Rightarrow> s)"

subsection \<open>shouldProcessUrl\<close>

definition shouldProcessUrl ::
  "'u url_api \<Rightarrow> SpiderCrawl \<Rightarrow> string \<Rightarrow> 'u \<Rightarrow> SpiderCrawlOptions \<Rightarrow> bool" where
  "shouldProcessUrl P s url baseUrlObj options =
     (if set_has (visitedUrls s) url then False
      else case url_new P url of
        None \<Rightarrow> False
      | Some urlObj \<Rightarrow>
          if sameDomain options = Given True
             \<and> url_hostname P urlObj \<noteq> url_hostname P baseUrlObj then False
          else if (case excludePatterns options of
                     Given ps \<Rightarrow> list_ex (\<lambda>pattern. includes_str url pattern) ps
                   | _ \<Rightarrow> False) then False
          else if (case includePatterns options of
                     Given ps \<Rightarrow> length ps > 0 \<and> \<not> list_ex (\<lambda>pattern. includes_str url pattern) ps
                   | _ \<Rightarrow> False) then False
          else True)"

subsection \<open>The page renderer, as the crawler sees it\<close>

text \<open>
  \<open>webCrawl.crawl(url, {format: 'crawl-links'})\<close> (modules/web\_crawl.ts) never throws:
  it answers \<open>success = false\<close> when \<open>url\<close> is not a URL, and otherwise whatever the
  browser gives (\<open>render url\<close>: the links of the page, or \<open>None\<close> when taking a tab,
  navigating or extracting failed).
\<close>

record CrawlResult =
  cr_success :: bool
  cr_data :: "LinkData list option"

definition webCrawl_crawl ::
  "'u url_api \<Rightarrow> (string \<Rightarrow> LinkData list option) \<Rightarrow> string \<Rightarrow> CrawlResult" where
  "webCrawl_crawl P render url =
     (if url_new P url = None then \<lparr>cr_success = False, cr_data = None\<rparr>
      else case render url of
        None \<Rightarrow> \<lparr>cr_success = False, cr_data = None\<rparr>
      | Some links \<Rightarrow> \<lparr>cr_success = True, cr_data = Some links\<rparr>)"

subsection \<open>processUrl\<close>

text \<open>
  \<open>processUrl\<close> is an async function with one \<open>await\<close>.  Its synchronous prefix
  (\<open>processUrl_begin\<close>) runs when the function is called: the skip test and the
  insertion into \<open>visitedUrls\<close>; it answers whether the fetch was started.  The rest
  (\<open>processUrl_resume\<close>) runs, without interruption, when the fetch has settled.
\<close>

definition processUrl_begin ::
  "SpiderCrawlOptions \<Rightarrow> string \<Rightarrow> SpiderCrawl \<Rightarrow> bool \<times> SpiderCrawl" where
  "processUrl_begin options url s =
     (if set_has (visitedUrls s) url
         \<or> js_ge (Finite (of_nat (length (visitedUrls s)))) (js_or (maxPages options) (Finite 100))
      then (False, s)
      else (True, s\<lparr>visitedUrls := set_add (visitedUrls s) url\<rparr>))"

fun add_new_urls ::
  "'u url_api \<Rightarrow> 'u \<Rightarrow> SpiderCrawlOptions \<Rightarrow> LinkData list \<Rightarrow> SpiderCrawl \<Rightarrow> SpiderCrawl" where
  "add_new_urls P baseUrlObj options [] s = s"
| "add_new_urls P baseUrlObj options (link # links) s =
     (let newUrl = normalizeUrl P (link_url link)
      in add_new_urls P baseUrlObj options links
           (if shouldProcessUrl P s newUrl baseUrlObj options
            then s\<lparr>queue := queue s @ [newUrl]\<rparr> else s))"

definition processUrl_resume ::
  "'u url_api \<Rightarrow> (string \<Rightarrow> LinkData list option) \<Rightarrow> 'u \<Rightarrow> SpiderCrawlOptions
     \<Rightarrow> string \<Rightarrow> SpiderCrawl \<Rightarrow> SpiderCrawl" where
  "processUrl_resume P render baseUrlObj options url s =
     (let result = webCrawl_crawl P render url
      in case (cr_success result, cr_data result) of
           (True, Some links) \<Rightarrow>
             add_new_urls P baseUrlObj options links
               (s\<lparr>linkMap := AList.update url links (linkMap s)\<rparr>)
         | _ \<Rightarrow> s)"

subsection \<open>processQueue\<close>

text \<open>
  \<open>currentBatch.map(url => this.processUrl(...))\<close> runs the synchronous prefix of every
  call, in order, before any fetch settles; \<open>dispatch\<close> returns the URLs whose fetch
  was started.  \<open>Promise.all\<close> then waits for all of them; the fetches settle in the
  order of their finishing times (\<open>finish\<close>, given by the outside world; ties in
  dispatch order), and each continuation runs when its fetch settles.
\<close>

fun dispatch :: "SpiderCrawlOptions \<Rightarrow> string list \<Rightarrow> SpiderCrawl \<Rightarrow> string list \<times> SpiderCrawl" where
  "dispatch options [] s = ([], s)"
| "dispatch options (url # urls) s =
     (let (started, s1) = processUrl_begin options url s;
          (pending, s2) = dispatch options urls s1
      in (if started then url # pending else pending, s2))"

definition processBatch ::
  "'u url_api \<Rightarrow> (string \<Rightarrow> LinkData list option) \<Rightarrow> (string \<Rightarrow> nat) \<Rightarrow> 'u
     \<Rightarrow> SpiderCrawlOptions \<Rightarrow> string list \<Rightarrow> SpiderCrawl \<Rightarrow> SpiderCrawl" where
  "processBatch P render finish baseUrlObj options currentBatch s =
     (let (pending, s1) = dispatch options currentBatch s
      in foldl (\<lambda>st url. processUrl_resume P render baseUrlObj options url st)
           s1 (sort_key finish pending))"

text \<open>
  The \<open>while\<close> loop of \<open>processQueue\<close>; \<open>depth\<close> starts at 0.  The delay between
  batches suspends the loop and changes no state.
\<close>

function processQueue ::
  "'u url_api \<Rightarrow> (string \<Rightarrow> LinkData list option) \<Rightarrow> (string \<Rightarrow> nat) \<Rightarrow> 'u
     \<Rightarrow> SpiderCrawlOptions \<Rightarrow> int \<Rightarrow> SpiderCrawl \<Rightarrow> SpiderCrawl" where
  "processQueue P render finish baseUrlObj options depth s =
     (if length (queue s) > 0 \<and> depth < num_or (maxDepth options) 3
      then processQueue P render finish baseUrlObj options (depth + 1)
             (processBatch P render finish baseUrlObj options (queue s) (s\<lparr>queue := []\<rparr>))
      else s)"
  by pat_completeness auto
termination
  by (relation "measure (\<lambda>(P, render, finish, baseUrlObj, options, depth, s).
        nat (num_or (maxDepth options) 3 - depth))") auto

subsection \<open>crawl\<close>

definition defaultOptions :: SpiderCrawlOptions where
  "defaultOptions =
     \<lparr>maxDepth = Given 3, maxPages = Given (Finite 100), sameDomain = Given True,
      excludePatterns = Given [''mailto:'', ''tel:'', ''javascript:'', ''#'', ''.pdf'',
        ''.doc'', ''.docx'', ''.xls'', ''.xlsx'', ''.zip'', ''.rar''],
      includePatterns = Given [], delay = Given 1000\<rparr>"

definition finalOptions :: "SpiderCrawlOptions \<Rightarrow> SpiderCrawlOptions" where
  "finalOptions options =
     \<lparr>maxDepth = spread (maxDepth defaultOptions) (maxDepth options),
      maxPages = spread (maxPages defaultOptions) (maxPages options),
      sameDomain = spread (sameDomain defaultOptions) (sameDomain options),
      excludePatterns = spread (excludePatterns defaultOptions) (excludePatterns options),
      includePatterns = spread (includePatterns defaultOptions) (includePatterns options),
      delay = spread (delay defaultOptions) (delay options)\<rparr>"

definition getTotalLinks :: "SpiderCrawl \<Rightarrow> nat" where
  "getTotalLinks s = foldl (\<lambda>total (url, links). total + length links) 0 (linkMap s)"

text \<open>The message of the \<open>TypeError\<close> that \<open>new URL\<close> throws.\<close>

definition invalid_url_message :: string where
  "invalid_url_message = ''Invalid URL''"

text \<open>
  \<open>crawl\<close> returns its result and leaves the instance in the state of the second
  component.  The only statement of the \<open>try\<close> block that can throw is
  \<open>new URL(baseUrl)\<close>.
\<close>

definition crawl ::
  "'u url_api \<Rightarrow> (string \<Rightarrow> LinkData list option) \<Rightarrow> (string \<Rightarrow> nat) \<Rightarrow> string
     \<Rightarrow> SpiderCrawlOptions \<Rightarrow> SpiderCrawlResult \<times> SpiderCrawl" where
  "crawl P render finish url options =
     (let s0 = \<lparr>visitedUrls = [], linkMap = [], queue = []\<rparr>;
          baseUrl' = normalizeUrl P url
      in case url_new P baseUrl' of
           None \<Rightarrow>
             (\<lparr>success = False, result_linkMap = [], totalPages = 0, totalLinks = 0,
               error_message = Some invalid_url_message, baseUrl = url\<rparr>, s0)
         | Some baseUrlObj \<Rightarrow>
             (let s1 = processQueue P render finish baseUrlObj (finalOptions options) 0
                         (s0\<lparr>queue := [baseUrl']\<rparr>)
              in (\<lparr>success = True, result_linkMap = linkMap s1,
                   totalPages = length (visitedUrls s1), totalLinks = getTotalLinks s1,
                   error_message = None, baseUrl = baseUrl'\<rparr>, s1)))"

subsection \<open>getInternalLinks and getExternalLinks\<close>

fun getInternalLinks_loop ::
  "(string \<times> LinkData list) list \<Rightarrow> (string \<times> LinkData list) list \<Rightarrow> (string \<times> LinkData list) list" where
  "getInternalLinks_loop internalMap [] = internalMap"
| "getInternalLinks_loop internalMap ((url, links) # rest) =
     (let internalLinks = filter (\<lambda>link. isInternal link) links
      in if length internalLinks > 0
         then getInternalLinks_loop (AList.update url internalLinks internalMap) rest
         else getInternalLinks_loop internalMap rest)"

definition getInternalLinks :: "SpiderCrawl \<Rightarrow> (string \<times> LinkData list) list" where
  "getInternalLinks s = getInternalLinks_loop [] (linkMap s)"

fun getExternalLinks_loop ::
  "(string \<times> LinkData list) list \<Rightarrow> (string \<times> LinkData list) list \<Rightarrow> (string \<times> LinkData list) list" where
  "getExternalLinks_loop externalMap [] = externalMap"
| "getExternalLinks_loop externalMap ((url, links) # rest) =
     (let externalLinks = filter (\<lambda>link. \<not> isInternal link) links
      in if length externalLinks > 0
         then getExternalLinks_loop (AList.update url externalLinks externalMap) rest
         else getExternalLinks_loop externalMap rest)"

definition getExternalLinks :: "SpiderCrawl \<Rightarrow> (string \<times> LinkData list) list" where
  "getExternalLinks s = getExternalLinks_loop [] (linkMap s)"

section \<open>PuppeteerController (controllers/puppeteer\_controller.ts)\<close>

text \<open>
  The browser is the outside world.  A page has an identity (\<open>page_no\<close>), the URL that
  \<open>page.url()\<close> answers at the moment, and the tab ids that the \<open>close\<close> listeners
  registered on it will delete.  \<open>browser.pages()\<close> is the list of the open pages;
  \<open>browser.newPage()\<close> opens a page at \<open>about:blank\<close>; navigation changes a page's URL.
  Times are milliseconds.
\<close>

record TabInfo =
  tab_id :: string
  tab_url :: string
  inUse :: bool
  createdAt :: int
  lastUsed :: int

record Page =
  page_no :: nat
  page_url :: string
  on_close :: "string list"

record Browser =
  pages :: "Page list"
  next_page_no :: nat

record PuppeteerController =
  browser :: "Browser option"
  tabs :: "(string \<times> TabInfo) list"
  maxTabs :: int

datatype pool_error = BrowserInitFailed | BrowserNotInitialized | TimeoutWaitingForTab

definition about_blank :: string where
  "about_blank = ''about:blank''"

definition newPage :: "Browser \<Rightarrow> Page \<times> Browser" where
  "newPage b =
     (let page = \<lparr>page_no = next_page_no b, page_url = about_blank, on_close = []\<rparr>
      in (page, b\<lparr>pages := pages b @ [page], next_page_no := Suc (next_page_no b)\<rparr>))"

text \<open>\<open>page.on('close', ...)\<close> for the page with the given identity.\<close>

definition page_on_close :: "nat \<Rightarrow> string \<Rightarrow> Browser \<Rightarrow> Browser" where
  "page_on_close n tabId b =
     b\<lparr>pages := map (\<lambda>p. if page_no p = n then p\<lparr>on_close := on_close p @ [tabId]\<rparr> else p)
                    (pages b)\<rparr>"

text \<open>\<open>page.goto(url)\<close>, as far as the controller can see it.\<close>

definition navigate :: "nat \<Rightarrow> string \<Rightarrow> PuppeteerController \<Rightarrow> PuppeteerController" where
  "navigate n url s =
     (case browser s of
        None \<Rightarrow> s
      | Some b \<Rightarrow>
          s\<lparr>browser := Some (b\<lparr>pages := map (\<lambda>p. if page_no p = n then p\<lparr>page_url := url\<rparr> else p)
                                             (pages b)\<rparr>)\<rparr>)"

text \<open>A browser as \<open>puppeteer.launch\<close> hands it over: one blank page is open.\<close>

definition launched_browser :: Browser where
  "launched_browser =
     \<lparr>pages = [\<lparr>page_no = 0, page_url = about_blank, on_close = []\<rparr>], next_page_no = 1\<rparr>"

text \<open>The constructor: \<open>maxTabs: config.maxTabs || 10\<close>.\<close>

definition new_controller :: "int optional \<Rightarrow> PuppeteerController" where
  "new_controller configMaxTabs = \<lparr>browser = None, tabs = [], maxTabs = num_or configMaxTabs 10\<rparr>"

text \<open>
  \<open>initialize\<close>: \<open>launch\<close> is what \<open>puppeteer.launch\<close> answers if it is called (\<open>None\<close>:
  it throws).  The flags \<open>isInitializing\<close> and \<open>initializationPromise\<close> are reset whenever
  \<open>initialize\<close> has returned, so between two calls they carry nothing.
\<close>

definition initialize :: "Browser option \<Rightarrow> PuppeteerController \<Rightarrow> pool_error + PuppeteerController" where
  "initialize launch s =
     (if browser s \<noteq> None then Inr s
      else case launch of
        None \<Rightarrow> Inl BrowserInitFailed
      | Some b \<Rightarrow> Inr (s\<lparr>browser := Some b\<rparr>))"

definition createNewTab ::
  "int \<Rightarrow> PuppeteerController \<Rightarrow> (pool_error + Page) \<times> PuppeteerController" where
  "createNewTab now s =
     (case browser s of
        None \<Rightarrow> (Inl BrowserNotInitialized, s)
      | Some b \<Rightarrow>
          (let (page, b1) = newPage b;
               tabId = page_url page;
               tabInfo = \<lparr>tab_id = tabId, tab_url = tabId, inUse = True,
                          createdAt = now, lastUsed = now\<rparr>
           in (Inr (page\<lparr>on_close := on_close page @ [tabId]\<rparr>),
               s\<lparr>tabs := AList.update tabId tabInfo (tabs s),
                 browser := Some (page_on_close (page_no page) tabId b1)\<rparr>)))"

text \<open>
  \<open>waitForAvailableTab\<close> calls \<open>getTab\<close> every 100 ms and rejects after 30 s.  While no
  other caller changes the controller, every such call finds the state that sent the
  caller here and waits in turn, so the promise is rejected by its timer and the state
  is as it was.  This is the case modelled.
\<close>

definition waitForAvailableTab ::
  "PuppeteerController \<Rightarrow> (pool_error + Page) \<times> PuppeteerController" where
  "waitForAvailableTab s = (Inl TimeoutWaitingForTab, s)"

definition getTab ::
  "int \<Rightarrow> Browser option \<Rightarrow> PuppeteerController \<Rightarrow> (pool_error + Page) \<times> PuppeteerController" where
  "getTab now launch s0 =
     (case initialize launch s0 of
        Inl e \<Rightarrow> (Inl e, s0)
      | Inr s \<Rightarrow>
          (case browser s of
             None \<Rightarrow> (Inl BrowserNotInitialized, s)
           | Some b \<Rightarrow>
               (case find (\<lambda>(tabId, tabInfo). \<not> inUse tabInfo) (tabs s) of
                  Some (tabId, tabInfo) \<Rightarrow>
                    (let s1 = s\<lparr>tabs := AList.update tabId (tabInfo\<lparr>inUse := True, lastUsed := now\<rparr>)
                                          (tabs s)\<rparr>
                     in case find (\<lambda>page. page_url page = tab_url tabInfo) (pages b) of
                          Some page \<Rightarrow> (Inr page, s1)
                        | None \<Rightarrow> createNewTab now s1)
                | None \<Rightarrow>
                    if int (length (tabs s)) < maxTabs s then createNewTab now s
                    else waitForAvailableTab s)))"

text \<open>\<open>releaseTab(page)\<close>: \<open>page\<close> is the page object as it is at the call.\<close>

definition releaseTab :: "int \<Rightarrow> Page \<Rightarrow> PuppeteerController \<Rightarrow> PuppeteerController" where
  "releaseTab now page s =
     (let tabId = page_url page
      in case map_of (tabs s) tabId of
           Some tabInfo \<Rightarrow>
             s\<lparr>tabs := AList.update tabId (tabInfo\<lparr>inUse := False, lastUsed := now\<rparr>) (tabs s)\<rparr>
         | None \<Rightarrow> s)"

text \<open>
  \<open>closeTab(page)\<close>: the entry under the page's URL is deleted, then the page is closed,
  which runs its \<open>close\<close> listeners; closing a page that is not open fails and the error
  is swallowed.
\<close>

definition closeTab :: "Page \<Rightarrow> PuppeteerController \<Rightarrow> PuppeteerController" where
  "closeTab page s =
     (let s1 = s\<lparr>tabs := AList.delete (page_url page) (tabs s)\<rparr>
      in case browser s1 of
           None \<Rightarrow> s1
         | Some b \<Rightarrow>
             (case find (\<lambda>p. page_no p = page_no page) (pages b) of
                None \<Rightarrow> s1
              | Some p \<Rightarrow>
                  s1\<lparr>browser := Some (b\<lparr>pages := filter (\<lambda>q. page_no q \<noteq> page_no page) (pages b)\<rparr>),
                     tabs := foldl (\<lambda>m tabId. AList.delete tabId m) (tabs s1) (on_close p)\<rparr>))"

text \<open>
  \<open>cleanupOldTabs\<close>: the \<open>for\<close> loop over the map visits the keys in insertion order and
  skips an entry that was deleted before the loop reached it.
\<close>

fun cleanup_loop :: "int \<Rightarrow> int \<Rightarrow> string list \<Rightarrow> PuppeteerController \<Rightarrow> PuppeteerController" where
  "cleanup_loop now maxAge [] s = s"
| "cleanup_loop now maxAge (tabId # rest) s =
     (case map_of (tabs s) tabId of
        None \<Rightarrow> cleanup_loop now maxAge rest s
      | Some tabInfo \<Rightarrow>
          if \<not> inUse tabInfo \<and> now - lastUsed tabInfo > maxAge then
            (case browser s of
               None \<Rightarrow> cleanup_loop now maxAge rest s
             | Some b \<Rightarrow>
                 (case find (\<lambda>p. page_url p = tabId) (pages b) of
                    None \<Rightarrow> cleanup_loop now maxAge rest s
                  | Some page \<Rightarrow> cleanup_loop now maxAge rest (closeTab page s)))
          else cleanup_loop now maxAge rest s)"

definition cleanupOldTabs :: "int \<Rightarrow> int \<Rightarrow> PuppeteerController \<Rightarrow> PuppeteerController" where
  "cleanupOldTabs now maxAgeMinutes s =
     cleanup_loop now (maxAgeMinutes * 60 * 1000) (map fst (tabs s)) s"

definition handleBrowserDisconnect :: "PuppeteerController \<Rightarrow> PuppeteerController" where
  "handleBrowserDisconnect s = s\<lparr>browser := None, tabs := []\<rparr>"

text \<open>\<open>close\<close>: an error of \<open>browser.close()\<close> is swallowed, the \<open>finally\<close> block runs.\<close>

definition close :: "PuppeteerController \<Rightarrow> PuppeteerController" where
  "close s = (case browser s of None \<Rightarrow> s | Some b \<Rightarrow> s\<lparr>browser := None, tabs := []\<rparr>)"

section \<open>Predicates the properties are stated with\<close>

text \<open>
  A fetch of \<open>url\<close> succeeds when \<open>webCrawl.crawl\<close> answers \<open>success\<close> with data.  The
  page budget is \<open>options.maxPages || 100\<close>, as \<open>processUrl\<close> reads it.  A set of \<open>n\<close> URLs
  is within the budget \<open>b\<close> when \<open>n\<close> is at most \<open>b\<close> rounded up to an integer, and at
  most 0 for a negative \<open>b\<close>; \<open>Infinity\<close> and \<open>NaN\<close> bound nothing.  \<open>crawl_inv\<close> is
  the invariant of a crawl run: no URL is twice in \<open>visitedUrls\<close> nor twice a key of
  \<open>linkMap\<close>, the keys of \<open>linkMap\<close> are the visited URLs whose fetch succeeded, and
  \<open>visitedUrls\<close> is within the budget.
\<close>

definition fetch_ok :: "'u url_api \<Rightarrow> (string \<Rightarrow> LinkData list option) \<Rightarrow> string \<Rightarrow> bool" where
  "fetch_ok P render url = (url_new P url \<noteq> None \<and> render url \<noteq> None)"

definition page_budget :: "SpiderCrawlOptions \<Rightarrow> js_number" where
  "page_budget options = js_or (maxPages options) (Finite 100)"

definition within_budget :: "nat \<Rightarrow> js_number \<Rightarrow> bool" where
  "within_budget n b =
     (case b of
        Finite q \<Rightarrow> int n \<le> max 0 \<lceil>q\<rceil>
      | NegInfinity \<Rightarrow> n = 0
      | PosInfinity \<Rightarrow> True
      | NaN \<Rightarrow> True)"

definition crawl_inv ::
  "'u url_api \<Rightarrow> (string \<Rightarrow> LinkData list option) \<Rightarrow> SpiderCrawlOptions \<Rightarrow> SpiderCrawl \<Rightarrow> bool" where
  "crawl_inv P render options s =
     (distinct (visitedUrls s) \<and> distinct (map fst (linkMap s))
      \<and> fst ` set (linkMap s) = {u \<in> set (visitedUrls s). fetch_ok P render u}
      \<and> within_budget (length (visitedUrls s)) (page_budget options))"

definition patterns_of :: "string list optional \<Rightarrow> string list" where
  "patterns_of p = (case p of Given ps \<Rightarrow> ps | _ \<Rightarrow> [])"

text \<open>
  For the tab pool: a tab is expired when it is idle and was last used more than
  \<open>maxAge\<close> ago; \<open>page_open s tabId\<close> says that an open page shows the URL \<open>tabId\<close>.
  \<open>pool_wf\<close> holds of the states the controller can be in: the keys of the map are
  distinct, the open pages are distinct objects, and a \<open>close\<close> listener of a page that
  shows the URL of a tab deletes that tab or none.
\<close>

definition page_open :: "PuppeteerController \<Rightarrow> string \<Rightarrow> bool" where
  "page_open s tabId =
     (case browser s of None \<Rightarrow> False | Some b \<Rightarrow> list_ex (\<lambda>p. page_url p = tabId) (pages b))"

definition expired :: "int \<Rightarrow> int \<Rightarrow> TabInfo \<Rightarrow> bool" where
  "expired now maxAge tabInfo = (\<not> inUse tabInfo \<and> now - lastUsed tabInfo > maxAge)"

definition listeners_local :: "(string \<times> TabInfo) list \<Rightarrow> Page \<Rightarrow> bool" where
  "listeners_local ts p =
     (page_url p \<notin> fst ` set ts
      \<or> list_all (\<lambda>k. k = page_url p \<or> k \<notin> fst ` set ts) (on_close p))"

definition pool_wf :: "PuppeteerController \<Rightarrow> bool" where
  "pool_wf s =
     (distinct (map fst (tabs s))
      \<and> (case browser s of
            None \<Rightarrow> True
          | Some b \<Rightarrow> distinct (map page_no (pages b)) \<and> list_all (listeners_local (tabs s)) (pages b)))"

section \<open>Concrete inputs\<close>

text \<open>
  A small site for running the crawler: the start page links to a page that exists
  (through a URL with a doubled slash and a fragment), to a page whose fetch fails, to
  another host, to a PDF and to a string that is not a URL.
\<close>

definition link_to :: "string \<Rightarrow> bool \<Rightarrow> LinkData" where
  "link_to url internal =
     \<lparr>link_url = url, link_text = ''link'', link_title = None, isInternal = internal\<rparr>"

definition example_site :: "string \<Rightarrow> LinkData list option" where
  "example_site url =
     (if url = ''https://example.com/''
      then Some [link_to ''https://example.com//a#top'' True,
                 link_to ''https://example.com/broken'' True,
                 link_to ''https://other.org/'' False,
                 link_to ''https://example.com/doc.pdf'' True,
                 link_to ''not a url'' False]
      else if url = ''https://example.com/a'' then Some [link_to ''https://example.com/'' True]
      else None)"

definition no_options :: SpiderCrawlOptions where
  "no_options = \<lparr>maxDepth = Absent, maxPages = Absent, sameDomain = Absent,
     excludePatterns = Absent, includePatterns = Absent, delay = Absent\<rparr>"

definition at_once :: "string \<Rightarrow> nat" where
  "at_once url = 0"

definition example_base :: URL where
  "example_base =
     \<lparr>u_scheme = ''https'', u_username = [], u_password = [], u_host = Some ''example.com'',
      u_port = None, u_path = Segments [[]], u_query = None, u_fragment = None\<rparr>"

definition no_double_slash :: "string \<Rightarrow> bool" where
  "no_double_slash p = (\<not> sublist ''//'' p)"

definition example_linkMap :: "(string \<times> LinkData list) list" where
  "example_linkMap =
     [(''https://example.com/'',
        [link_to ''https://example.com/a'' True, link_to ''https://other.org/'' False]),
      (''https://example.com/a'', [link_to ''https://other.org/'' False])]"

definition example_state :: SpiderCrawl where
  "example_state = \<lparr>visitedUrls = [''https://example.com/''], linkMap = [], queue = []\<rparr>"

definition failed_result :: "string \<Rightarrow> SpiderCrawlResult" where
  "failed_result url =
     \<lparr>success = False, result_linkMap = [], totalPages = 0, totalLinks = 0,
      error_message = Some invalid_url_message, baseUrl = url\<rparr>"

definition pool_one_tab :: PuppeteerController where
  "pool_one_tab = snd (getTab 0 (Some launched_browser) (new_controller Absent))"

definition pool_saturated :: PuppeteerController where
  "pool_saturated =
     navigate 1 ''https://example.com/''
       (snd (getTab 0 (Some launched_browser) (new_controller (Given 1))))"

definition page_at_example :: Page where
  "page_at_example = \<lparr>page_no = 1, page_url = ''https://example.com/'', on_close = [about_blank]\<rparr>"

definition pool_idle_tab :: PuppeteerController where
  "pool_idle_tab =
     releaseTab 1 \<lparr>page_no = 1, page_url = about_blank, on_close = [about_blank]\<rparr> pool_one_tab"

definition pool_idle_navigated :: PuppeteerController where
  "pool_idle_navigated =
     (let s1 = cleanupOldTabs 2000000 30 pool_idle_tab;
          s2 = snd (getTab 2000001 None s1);
          s3 = releaseTab 2000002 \<lparr>page_no = 2, page_url = about_blank, on_close = [about_blank]\<rparr> s2
      in navigate 2 ''https://example.com/'' (navigate 1 ''https://example.com/'' s3))"

text \<open>
  For the idempotence of \<open>normalizeUrl\<close>: \<open>normalized\<close> is what \<open>normalizeUrl\<close> does to a
  URL record.  A record is well formed when no segment of its path holds a separator, a
  code point that the path state would percent-encode, or is a dot segment, and the path
  is empty only where the standard allows it; the parser of the URL Standard yields such
  records.  \<open>parser_agrees\<close> says, for one input, that the parser yields a well-formed
  record and parses the serialization of the normalized record back to that record.
  \<open>compress\<close> drops the empty segments but a last one, \<open>fix_first\<close> normalizes a leading
  Windows drive letter of a \<open>file\<close> URL.
\<close>

definition normalized :: "URL \<Rightarrow> URL" where
  "normalized u = set_pathname (replace_slashes (get_pathname (set_hash [] u))) (set_hash [] u)"

definition wf_segment :: "bool \<Rightarrow> string \<Rightarrow> bool" where
  "wf_segment special seg =
     (list_all (\<lambda>c. \<not> is_separator special c \<and> \<not> in_path_encode_set c) seg
      \<and> \<not> is_single_dot seg \<and> \<not> is_double_dot seg)"

definition wf_url :: "URL \<Rightarrow> bool" where
  "wf_url u =
     (case u_path u of
        Opaque s \<Rightarrow> True
      | Segments segs \<Rightarrow>
          list_all (wf_segment (is_special (u_scheme u))) segs
          \<and> (segs \<noteq> [] \<or> (\<not> is_special (u_scheme u) \<and> u_host u \<noteq> None)))"


definition compress :: "string list \<Rightarrow> string list" where
  "compress segs =
     filter (\<lambda>seg. seg \<noteq> []) segs @ (if segs \<noteq> [] \<and> last segs = [] then [[]] else [])"

definition fix_first :: "string \<Rightarrow> string list \<Rightarrow> string list" where
  "fix_first sch segs =
     (case segs of
        [] \<Rightarrow> []
      | seg # rest \<Rightarrow>
          (if sch = ''file'' \<and> is_drive_letter seg then [seg ! 0, CHR '':''] else seg) # rest)"

abbreviation slash_join :: "string list \<Rightarrow> string" where
  "slash_join segs \<equiv> concat (map (\<lambda>seg. CHR ''/'' # seg) segs)"




section \<open>The crawler: dispatch, settling and the invariant of a run\<close>

declare processQueue.simps [simp del]

lemma update_fresh: "k \<notin> fst ` set al \<Longrightarrow> AList.update k v al = al @ [(k, v)]"
  by (induction al) auto

lemma processUrl_begin_started:
  "processUrl_begin options url s = (True, s') \<Longrightarrow>
     url \<notin> set (visitedUrls s) \<and> s' = s\<lparr>visitedUrls := visitedUrls s @ [url]\<rparr>
     \<and> \<not> js_ge (Finite (of_nat (length (visitedUrls s)))) (page_budget options)"
  by (auto simp: processUrl_begin_def set_has_def set_add_def page_budget_def split: if_splits)

lemma within_budget_step:
  assumes w: "within_budget n b" and g: "\<not> js_ge (Finite (of_nat n)) b"
  shows "within_budget (Suc n) b"
proof (cases b)
  case (Finite q)
  with g have "of_int (int n) < q" by (simp add: js_ge_def)
  then have "int n < \<lceil>q\<rceil>" by (simp only: less_ceiling_iff)
  then show ?thesis by (simp add: within_budget_def Finite)
next
  case PosInfinity
  then show ?thesis by (simp add: within_budget_def)
next
  case NegInfinity
  with g show ?thesis by (simp add: js_ge_def)
next
  case NaN
  then show ?thesis by (simp add: within_budget_def)
qed

lemma processUrl_begin_skipped:
  "processUrl_begin options url s = (False, s') \<Longrightarrow> s' = s"
  by (auto simp: processUrl_begin_def split: if_splits)

lemma dispatch_state:
  "dispatch options batch s = (pending, s') \<Longrightarrow> s' = s\<lparr>visitedUrls := visitedUrls s @ pending\<rparr>"
proof (induction batch arbitrary: s pending s')
  case Nil
  then show ?case by simp
next
  case (Cons url urls)
  obtain started s1 where b: "processUrl_begin options url s = (started, s1)"
    by (cases "processUrl_begin options url s")
  obtain rest s2 where d: "dispatch options urls s1 = (rest, s2)"
    by (cases "dispatch options urls s1")
  from Cons.prems b d have p: "pending = (if started then url # rest else rest)" and s': "s' = s2"
    by auto
  from Cons.IH[OF d] have s2: "s2 = s1\<lparr>visitedUrls := visitedUrls s1 @ rest\<rparr>" .
  show ?case
  proof (cases started)
    case True
    with b processUrl_begin_started[of options url s s1]
    have "s1 = s\<lparr>visitedUrls := visitedUrls s @ [url]\<rparr>" by simp
    with s2 s' p True show ?thesis by simp
  next
    case False
    with b processUrl_begin_skipped[of options url s s1] have "s1 = s" by simp
    with s2 s' p False show ?thesis by simp
  qed
qed

lemma dispatch_distinct:
  "dispatch options batch s = (pending, s') \<Longrightarrow> distinct (visitedUrls s) \<Longrightarrow>
     distinct (visitedUrls s @ pending)"
proof (induction batch arbitrary: s pending s')
  case Nil
  then show ?case by simp
next
  case (Cons url urls)
  obtain started s1 where b: "processUrl_begin options url s = (started, s1)"
    by (cases "processUrl_begin options url s")
  obtain rest s2 where d: "dispatch options urls s1 = (rest, s2)"
    by (cases "dispatch options urls s1")
  from Cons.prems b d have p: "pending = (if started then url # rest else rest)"
    by auto
  show ?case
  proof (cases started)
    case True
    with b processUrl_begin_started[of options url s s1]
    have s1: "s1 = s\<lparr>visitedUrls := visitedUrls s @ [url]\<rparr>" and n: "url \<notin> set (visitedUrls s)"
      by simp_all
    with Cons.prems have "distinct (visitedUrls s1)" by simp
    from Cons.IH[OF d this] s1 p True show ?thesis by simp
  next
    case False
    with b processUrl_begin_skipped[of options url s s1] have "s1 = s" by simp
    with Cons.IH[OF d] Cons.prems p False show ?thesis by simp
  qed
qed

lemma dispatch_budget:
  "dispatch options batch s = (pending, s') \<Longrightarrow>
     within_budget (length (visitedUrls s)) (page_budget options) \<Longrightarrow>
     within_budget (length (visitedUrls s @ pending)) (page_budget options)"
proof (induction batch arbitrary: s pending s')
  case Nil
  then show ?case by simp
next
  case (Cons url urls)
  obtain started s1 where b: "processUrl_begin options url s = (started, s1)"
    by (cases "processUrl_begin options url s")
  obtain rest s2 where d: "dispatch options urls s1 = (rest, s2)"
    by (cases "dispatch options urls s1")
  from Cons.prems b d have p: "pending = (if started then url # rest else rest)"
    by auto
  show ?case
  proof (cases started)
    case True
    with b processUrl_begin_started[of options url s s1]
    have s1: "s1 = s\<lparr>visitedUrls := visitedUrls s @ [url]\<rparr>"
      and n: "\<not> js_ge (Finite (of_nat (length (visitedUrls s)))) (page_budget options)"
      by simp_all
    from within_budget_step[OF Cons.prems(2) n] s1
    have "within_budget (length (visitedUrls s1)) (page_budget options)" by simp
    from Cons.IH[OF d this] s1 p True show ?thesis by simp
  next
    case False
    with b processUrl_begin_skipped[of options url s s1] have "s1 = s" by simp
    with Cons.IH[OF d] Cons.prems p False show ?thesis by simp
  qed
qed

lemma dispatch_subset:
  "dispatch options batch s = (pending, s') \<Longrightarrow> set pending \<subseteq> set batch"
proof (induction batch arbitrary: s pending s')
  case Nil
  then show ?case by simp
next
  case (Cons url urls)
  obtain started s1 where b: "processUrl_begin options url s = (started, s1)"
    by (cases "processUrl_begin options url s")
  obtain rest s2 where d: "dispatch options urls s1 = (rest, s2)"
    by (cases "dispatch options urls s1")
  from Cons.prems b d have p: "pending = (if started then url # rest else rest)"
    by auto
  from Cons.IH[OF d] p show ?case by auto
qed

lemma shouldProcessUrl_queue [simp]:
  "shouldProcessUrl P (s\<lparr>queue := q\<rparr>) url b options = shouldProcessUrl P s url b options"
  by (simp add: shouldProcessUrl_def)

lemma shouldProcessUrl_linkMap [simp]:
  "shouldProcessUrl P (s\<lparr>linkMap := m\<rparr>) url b options = shouldProcessUrl P s url b options"
  by (simp add: shouldProcessUrl_def)

lemma add_new_urls_state:
  "add_new_urls P b options links s =
     s\<lparr>queue := queue s @ filter (\<lambda>u. shouldProcessUrl P s u b options)
                            (map (\<lambda>link. normalizeUrl P (link_url link)) links)\<rparr>"
  by (induction links arbitrary: s) (simp_all add: Let_def)

lemma fetch_ok_iff:
  "fetch_ok P render url \<longleftrightarrow>
     (\<exists>links. (cr_success (webCrawl_crawl P render url), cr_data (webCrawl_crawl P render url))
        = (True, Some links))"
  by (auto simp: fetch_ok_def webCrawl_crawl_def split: option.splits)

lemma processUrl_resume_failed:
  "\<not> fetch_ok P render url \<Longrightarrow> processUrl_resume P render b options url s = s"
  by (auto simp: fetch_ok_def processUrl_resume_def webCrawl_crawl_def split: option.splits)

lemma processUrl_resume_ok:
  assumes "url_new P url \<noteq> None" and "render url = Some links"
  shows "processUrl_resume P render b options url s =
       s\<lparr>linkMap := AList.update url links (linkMap s),
         queue := queue s @ filter (\<lambda>u. shouldProcessUrl P s u b options)
                            (map (\<lambda>link. normalizeUrl P (link_url link)) links)\<rparr>"
  using assms by (auto simp: processUrl_resume_def webCrawl_crawl_def add_new_urls_state)

lemma processUrl_resume_visited [simp]:
  "visitedUrls (processUrl_resume P render b options url s) = visitedUrls s"
proof (cases "fetch_ok P render url")
  case True
  then obtain links where "url_new P url \<noteq> None" "render url = Some links"
    by (auto simp: fetch_ok_def)
  then show ?thesis by (simp add: processUrl_resume_ok)
next
  case False
  then show ?thesis by (simp add: processUrl_resume_failed)
qed

lemma processUrl_resume_keys:
  "fst ` set (linkMap (processUrl_resume P render b options url s)) =
     fst ` set (linkMap s) \<union> (if fetch_ok P render url then {url} else {})"
proof (cases "fetch_ok P render url")
  case True
  then obtain links where "url_new P url \<noteq> None" "render url = Some links"
    by (auto simp: fetch_ok_def)
  with True show ?thesis by (simp add: processUrl_resume_ok dom_update)
next
  case False
  then show ?thesis by (simp add: processUrl_resume_failed)
qed

lemma processUrl_resume_distinct:
  assumes "distinct (map fst (linkMap s))"
  shows "distinct (map fst (linkMap (processUrl_resume P render b options url s)))"
proof (cases "fetch_ok P render url")
  case True
  then obtain links where "url_new P url \<noteq> None" "render url = Some links"
    by (auto simp: fetch_ok_def)
  then show ?thesis using assms by (simp add: processUrl_resume_ok distinct_update)
next
  case False
  then show ?thesis using assms by (simp add: processUrl_resume_failed)
qed

lemma settle_visited [simp]:
  "visitedUrls (foldl (\<lambda>st url. processUrl_resume P render b options url st) s urls) = visitedUrls s"
  by (induction urls arbitrary: s) auto

lemma settle_keys:
  "fst ` set (linkMap (foldl (\<lambda>st url. processUrl_resume P render b options url st) s urls)) =
     fst ` set (linkMap s) \<union> {u \<in> set urls. fetch_ok P render u}"
  by (induction urls arbitrary: s) (auto simp: processUrl_resume_keys split: if_splits)

lemma settle_distinct:
  "distinct (map fst (linkMap s)) \<Longrightarrow>
     distinct (map fst (linkMap (foldl (\<lambda>st url. processUrl_resume P render b options url st) s urls)))"
  by (induction urls arbitrary: s) (auto simp: processUrl_resume_distinct)

lemma processBatch_visited:
  "dispatch options batch s = (pending, s1) \<Longrightarrow>
     visitedUrls (processBatch P render finish b options batch s) = visitedUrls s @ pending"
  by (auto simp: processBatch_def dest: dispatch_state)

lemma processBatch_inv:
  assumes "crawl_inv P render options s"
  shows "crawl_inv P render options (processBatch P render finish b options batch s)"
proof -
  obtain pending s1 where d: "dispatch options batch s = (pending, s1)"
    by (cases "dispatch options batch s")
  have s1: "s1 = s\<lparr>visitedUrls := visitedUrls s @ pending\<rparr>" by (rule dispatch_state[OF d])
  let ?s' = "processBatch P render finish b options batch s"
  have s': "?s' = foldl (\<lambda>st url. processUrl_resume P render b options url st) s1 (sort_key finish pending)"
    by (simp add: processBatch_def d)
  have v: "visitedUrls ?s' = visitedUrls s @ pending" by (simp add: s' s1)
  from assms have inv: "distinct (visitedUrls s)" "distinct (map fst (linkMap s))"
    "fst ` set (linkMap s) = {u \<in> set (visitedUrls s). fetch_ok P render u}"
    "within_budget (length (visitedUrls s)) (page_budget options)"
    by (auto simp: crawl_inv_def)
  have 1: "distinct (visitedUrls ?s')" using dispatch_distinct[OF d inv(1)] v by simp
  have 2: "distinct (map fst (linkMap ?s'))" unfolding s' using inv(2) s1
    by (intro settle_distinct) simp
  have 3: "fst ` set (linkMap ?s') = {u \<in> set (visitedUrls ?s'). fetch_ok P render u}"
    unfolding v unfolding s' settle_keys using inv(3) s1 by auto
  have 4: "within_budget (length (visitedUrls ?s')) (page_budget options)"
    using dispatch_budget[OF d inv(4)] v by simp
  from 1 2 3 4 show ?thesis by (simp add: crawl_inv_def)
qed

lemma crawl_inv_queue [simp]:
  "crawl_inv P render options (s\<lparr>queue := q\<rparr>) = crawl_inv P render options s"
  by (simp add: crawl_inv_def)

lemma processQueue_inv:
  "crawl_inv P render options s \<Longrightarrow>
     crawl_inv P render options (processQueue P render finish b options depth s)"
proof (induction P render finish b options depth s rule: processQueue.induct)
  case (1 P render finish b options depth s)
  show ?case
  proof (cases "length (queue s) > 0 \<and> depth < num_or (maxDepth options) 3")
    case True
    have "crawl_inv P render options
            (processBatch P render finish b options (queue s) (s\<lparr>queue := []\<rparr>))"
      using "1.prems" by (intro processBatch_inv) simp
    from "1.IH"[OF True this] True show ?thesis
      by (simp add: processQueue.simps[of P render finish b options depth s])
  next
    case False
    then show ?thesis using "1.prems"
      by (auto simp: processQueue.simps[of P render finish b options depth s])
  qed
qed

section \<open>The tab pool: cleanup\<close>

lemma delete_filter: "AList.delete k al = filter (\<lambda>(k', v). k' \<noteq> k) al"
  by (induction al) (auto simp: AList.delete_eq)

lemma foldl_delete_noop:
  "list_all (\<lambda>k. k \<notin> fst ` set al) ks \<Longrightarrow> foldl (\<lambda>m k. AList.delete k m) al ks = al"
  by (induction ks arbitrary: al) auto

lemma find_page_no:
  "distinct (map page_no ps) \<Longrightarrow> p \<in> set ps \<Longrightarrow> find (\<lambda>q. page_no q = page_no p) ps = Some p"
  by (induction ps) (auto simp: rev_image_eqI)

lemma filter_page_no:
  "distinct (map page_no ps) \<Longrightarrow> p \<in> set ps \<Longrightarrow>
     set (filter (\<lambda>q. page_no q \<noteq> page_no p) ps) = set ps - {p}"
  by (induction ps) (auto simp: rev_image_eqI)

lemma closeTab_tabs:
  assumes wf: "pool_wf s" and b: "browser s = Some b" and p: "p \<in> set (pages b)"
    and k: "page_url p \<in> fst ` set (tabs s)"
  shows "closeTab p s =
           s\<lparr>tabs := AList.delete (page_url p) (tabs s),
             browser := Some (b\<lparr>pages := filter (\<lambda>q. page_no q \<noteq> page_no p) (pages b)\<rparr>)\<rparr>"
proof -
  from wf b have d: "distinct (map page_no (pages b))"
    and l: "list_all (listeners_local (tabs s)) (pages b)"
    by (auto simp: pool_wf_def)
  from l p k have "list_all (\<lambda>k. k = page_url p \<or> k \<notin> fst ` set (tabs s)) (on_close p)"
    by (auto simp: listeners_local_def list_all_iff)
  then have "list_all (\<lambda>k. k \<notin> fst ` set (AList.delete (page_url p) (tabs s))) (on_close p)"
    by (auto simp: list_all_iff delete_filter)
  then have "foldl (\<lambda>m k. AList.delete k m) (AList.delete (page_url p) (tabs s)) (on_close p)
             = AList.delete (page_url p) (tabs s)"
    by (rule foldl_delete_noop)
  with find_page_no[OF d p] b show ?thesis
    by (simp add: closeTab_def)
qed

lemma closeTab_wf:
  assumes wf: "pool_wf s" and b: "browser s = Some b" and p: "p \<in> set (pages b)"
    and k: "page_url p \<in> fst ` set (tabs s)"
  shows "pool_wf (closeTab p s)"
proof -
  from wf b have d: "distinct (map page_no (pages b))"
    and l: "list_all (listeners_local (tabs s)) (pages b)"
    and dk: "distinct (map fst (tabs s))"
    by (auto simp: pool_wf_def)
  have "distinct (map page_no (filter (\<lambda>q. page_no q \<noteq> page_no p) (pages b)))"
    using d by (simp add: distinct_map_filter)
  moreover have "list_all (listeners_local (AList.delete (page_url p) (tabs s)))
                   (filter (\<lambda>q. page_no q \<noteq> page_no p) (pages b))"
    using l by (auto simp: list_all_iff listeners_local_def delete_filter)
  moreover have "distinct (map fst (AList.delete (page_url p) (tabs s)))"
    using dk by (rule distinct_delete)
  ultimately show ?thesis
    by (simp add: closeTab_tabs[OF assms] pool_wf_def)
qed

lemma closeTab_page_open:
  assumes wf: "pool_wf s" and b: "browser s = Some b" and p: "p \<in> set (pages b)"
    and k: "page_url p \<in> fst ` set (tabs s)" and k': "k' \<noteq> page_url p"
  shows "page_open (closeTab p s) k' = page_open s k'"
proof -
  from wf b have d: "distinct (map page_no (pages b))" by (auto simp: pool_wf_def)
  have "set (filter (\<lambda>q. page_no q \<noteq> page_no p) (pages b)) = set (pages b) - {p}"
    by (rule filter_page_no[OF d p])
  with k' show ?thesis
    by (auto simp: closeTab_tabs[OF wf b p k] page_open_def b list_ex_iff)
qed

lemma find_Some_page:
  "find (\<lambda>p. page_url p = k) ps = Some p \<Longrightarrow> p \<in> set ps \<and> page_url p = k"
  by (induction ps) (auto split: if_splits)

lemma find_None_page:
  "find (\<lambda>p. page_url p = k) ps = None \<longleftrightarrow> \<not> list_ex (\<lambda>p. page_url p = k) ps"
  by (induction ps) auto

lemma cleanup_loop_tabs:
  "pool_wf s \<Longrightarrow> distinct ks \<Longrightarrow>
     tabs (cleanup_loop now a ks s) =
       filter (\<lambda>(k, ti). \<not> (k \<in> set ks \<and> expired now a ti \<and> page_open s k)) (tabs s)"
proof (induction ks arbitrary: s)
  case Nil
  then show ?case by simp
next
  case (Cons k ks)
  from Cons.prems have wf: "pool_wf s" and dks: "distinct ks" and kks: "k \<notin> set ks" by auto
  from wf have dk: "distinct (map fst (tabs s))" by (simp add: pool_wf_def)
  note IH = Cons.IH[OF _ dks]
  show ?case
  proof (cases "map_of (tabs s) k")
    case None
    then have "k \<notin> fst ` set (tabs s)" by (simp add: map_of_eq_None_iff)
    then have "filter (\<lambda>(k', ti). \<not> (k' \<in> set (k # ks) \<and> expired now a ti \<and> page_open s k')) (tabs s)
             = filter (\<lambda>(k', ti). \<not> (k' \<in> set ks \<and> expired now a ti \<and> page_open s k')) (tabs s)"
      by (intro filter_cong) (auto simp: rev_image_eqI)
    with None IH[OF wf] show ?thesis by simp
  next
    case (Some ti)
    then have mem: "(k, ti) \<in> set (tabs s)" by (rule map_of_SomeD)
    have uniq: "\<And>ti'. (k, ti') \<in> set (tabs s) \<Longrightarrow> ti' = ti"
      using dk mem by (meson eq_key_imp_eq_value)
    show ?thesis
    proof (cases "expired now a ti \<and> page_open s k")
      case False
      have "filter (\<lambda>(k', ti). \<not> (k' \<in> set (k # ks) \<and> expired now a ti \<and> page_open s k')) (tabs s)
             = filter (\<lambda>(k', ti). \<not> (k' \<in> set ks \<and> expired now a ti \<and> page_open s k')) (tabs s)"
        using False uniq by (intro filter_cong) auto
      moreover have "cleanup_loop now a (k # ks) s = cleanup_loop now a ks s"
        using Some False
        by (auto simp: expired_def page_open_def list_ex_iff split: option.splits
            dest: find_Some_page)
      ultimately show ?thesis using IH[OF wf] by simp
    next
      case True
      then obtain b where b: "browser s = Some b" and ex: "list_ex (\<lambda>p. page_url p = k) (pages b)"
        by (auto simp: page_open_def split: option.splits)
      then obtain p where f: "find (\<lambda>p. page_url p = k) (pages b) = Some p"
        using find_None_page[of k "pages b"] by (cases "find (\<lambda>p. page_url p = k) (pages b)") auto
      from find_Some_page[OF f] have p: "p \<in> set (pages b)" and pk: "page_url p = k" by auto
      have kin: "page_url p \<in> fst ` set (tabs s)" using mem pk by (auto simp: rev_image_eqI)
      have step: "cleanup_loop now a (k # ks) s = cleanup_loop now a ks (closeTab p s)"
        using Some True b f by (simp add: expired_def)
      have t': "tabs (closeTab p s) = filter (\<lambda>(k', v). k' \<noteq> k) (tabs s)"
        by (simp add: closeTab_tabs[OF wf b p kin] delete_filter pk)
      have po: "\<And>k'. k' \<in> set ks \<Longrightarrow> page_open (closeTab p s) k' = page_open s k'"
      proof -
        fix k' assume "k' \<in> set ks"
        with kks pk have "k' \<noteq> page_url p" by auto
        then show "page_open (closeTab p s) k' = page_open s k'"
          by (rule closeTab_page_open[OF wf b p kin])
      qed
      have "tabs (cleanup_loop now a ks (closeTab p s)) =
              filter (\<lambda>(k', ti). \<not> (k' \<in> set ks \<and> expired now a ti \<and> page_open (closeTab p s) k'))
                (tabs (closeTab p s))"
        by (rule IH[OF closeTab_wf[OF wf b p kin]])
      also have "\<dots> = filter (\<lambda>(k', ti). \<not> (k' \<in> set (k # ks) \<and> expired now a ti \<and> page_open s k')) (tabs s)"
        unfolding t' filter_filter using True uniq po kks
        by (intro filter_cong) auto
      finally show ?thesis using step by simp
    qed
  qed
qed

lemma cleanupOldTabs_tabs:
  assumes "pool_wf s"
  shows "tabs (cleanupOldTabs now m s) =
       filter (\<lambda>(k, ti). \<not> (expired now (m * 60 * 1000) ti \<and> page_open s k)) (tabs s)"
proof -
  from assms have "distinct (map fst (tabs s))" by (simp add: pool_wf_def)
  from cleanup_loop_tabs[OF assms this, of now "m * 60 * 1000"]
  have "tabs (cleanupOldTabs now m s) =
      filter (\<lambda>(k, ti). \<not> (k \<in> set (map fst (tabs s)) \<and> expired now (m * 60 * 1000) ti \<and> page_open s k)) (tabs s)"
    by (simp add: cleanupOldTabs_def)
  also have "\<dots> = filter (\<lambda>(k, ti). \<not> (expired now (m * 60 * 1000) ti \<and> page_open s k)) (tabs s)"
    by (intro filter_cong) (auto simp: rev_image_eqI)
  finally show ?thesis .
qed

section \<open>Results of a crawl run\<close>

lemma within_budget_0 [simp]: "within_budget 0 b"
  by (simp add: within_budget_def split: js_number.splits)

lemma crawl_inv_initial: "crawl_inv P render options \<lparr>visitedUrls = [], linkMap = [], queue = q\<rparr>"
  by (simp add: crawl_inv_def)

lemma crawl_state_inv:
  "crawl_inv P render (finalOptions options) (snd (crawl P render finish url options))"
  by (auto simp: crawl_def Let_def crawl_inv_initial split: option.splits
      intro!: processQueue_inv)

lemma crawl_result_of_state:
  "totalPages (fst (crawl P render finish url options))
     = length (visitedUrls (snd (crawl P render finish url options)))
   \<and> result_linkMap (fst (crawl P render finish url options))
     = linkMap (snd (crawl P render finish url options))"
  by (auto simp: crawl_def Let_def split: option.splits)

lemma crawl_inv_length_linkMap:
  assumes "crawl_inv P render options s"
  shows "length (linkMap s) = length (filter (fetch_ok P render) (visitedUrls s))"
proof -
  from assms have d: "distinct (visitedUrls s)" and dk: "distinct (map fst (linkMap s))"
    and k: "fst ` set (linkMap s) = {u \<in> set (visitedUrls s). fetch_ok P render u}"
    by (auto simp: crawl_inv_def)
  have "length (linkMap s) = card (set (map fst (linkMap s)))"
    using distinct_card[OF dk] by simp
  also have "\<dots> = card (set (filter (fetch_ok P render) (visitedUrls s)))"
    using k by simp
  also have "\<dots> = length (filter (fetch_ok P render) (visitedUrls s))"
    using d distinct_card[of "filter (fetch_ok P render) (visitedUrls s)"] by simp
  finally show ?thesis .
qed

text \<open>
  Claim C1, as the code has it.  \<open>totalPages\<close> of the result is the size of the Visited
  Set; the Link Map has one entry for each visited URL whose fetch succeeded; so
  \<open>totalPages\<close> is the number of Link Map entries plus the number of visited URLs whose
  fetch failed.
\<close>

theorem crawl_totalPages_is_visited_size:
  "(case crawl P render finish url options of
      (r, s) \<Rightarrow>
        totalPages r = length (visitedUrls s)
        \<and> length (result_linkMap r) = length (filter (fetch_ok P render) (visitedUrls s))
        \<and> totalPages r = length (result_linkMap r)
            + length (filter (\<lambda>u. \<not> fetch_ok P render u) (visitedUrls s)))"
proof -
  obtain r s where c: "crawl P render finish url options = (r, s)"
    by (cases "crawl P render finish url options")
  from crawl_result_of_state[of P render finish url options] c
  have 1: "totalPages r = length (visitedUrls s)" and 2: "result_linkMap r = linkMap s"
    by simp_all
  from crawl_state_inv[of P render options finish url] c
  have "crawl_inv P render (finalOptions options) s" by simp
  then have 3: "length (linkMap s) = length (filter (fetch_ok P render) (visitedUrls s))"
    by (rule crawl_inv_length_linkMap)
  have 4: "length (filter (fetch_ok P render) (visitedUrls s))
        + length (filter (\<lambda>u. \<not> fetch_ok P render u) (visitedUrls s)) = length (visitedUrls s)"
    by (rule sum_length_filter_compl)
  from 1 2 3 4 show ?thesis by (simp add: c)
qed

lemma example_crawl:
  "crawl plain_url example_site at_once ''https://example.com/'' no_options =
     (\<lparr>success = True,
       result_linkMap =
         [(''https://example.com/'',
           [link_to ''https://example.com//a#top'' True, link_to ''https://example.com/broken'' True,
            link_to ''https://other.org/'' False, link_to ''https://example.com/doc.pdf'' True,
            link_to ''not a url'' False]),
          (''https://example.com/a'', [link_to ''https://example.com/'' True])],
       totalPages = 3, totalLinks = 6, error_message = None, baseUrl = ''https://example.com/''\<rparr>,
      \<lparr>visitedUrls = [''https://example.com/'', ''https://example.com/a'', ''https://example.com/broken''],
       linkMap =
         [(''https://example.com/'',
           [link_to ''https://example.com//a#top'' True, link_to ''https://example.com/broken'' True,
            link_to ''https://other.org/'' False, link_to ''https://example.com/doc.pdf'' True,
            link_to ''not a url'' False]),
          (''https://example.com/a'', [link_to ''https://example.com/'' True])],
       queue = []\<rparr>)"
  by code_simp

text \<open>
  Claim C1 as stated fails: on the example site one fetch fails, three URLs are visited,
  \<open>totalPages\<close> is 3, and the Link Map has 2 entries.
\<close>

theorem crawl_totalPages_failed_fetch:
  "totalPages (fst (crawl plain_url example_site at_once ''https://example.com/'' no_options)) = 3
   \<and> length (result_linkMap
        (fst (crawl plain_url example_site at_once ''https://example.com/'' no_options))) = 2"
  by (simp add: example_crawl)

lemma example_crawl_zero_budget:
  "visitedUrls (snd (crawl plain_url (\<lambda>url. None) at_once ''https://example.com/''
      (no_options\<lparr>maxPages := Given (Finite 0)\<rparr>))) = [''https://example.com/'']"
  by code_simp

lemma example_crawl_fractional_budget:
  "visitedUrls (snd (crawl plain_url example_site at_once ''https://example.com/''
      (no_options\<lparr>maxPages := Given (Finite (3 / 2))\<rparr>)))
     = [''https://example.com/'', ''https://example.com/a'']"
  by code_simp

lemma processBatch_settle:
  "dispatch options batch s = (pending, s1) \<Longrightarrow>
     processBatch P render finish b options batch s =
       foldl (\<lambda>st url. processUrl_resume P render b options url st) s1 (sort_key finish pending)"
  by (simp add: processBatch_def)

text \<open>
  Claim C4, as the code has it.  From a state of a run, the dispatch phase of a batch
  appends to the Visited Set exactly the URLs whose fetch it starts, each once and none
  that was there before, and the fetches settle only afterwards; the batch leaves the
  Visited Set extended, the Link Map keys distinct and the Visited Set within the budget
  \<open>maxPages || 100\<close> (at most that number rounded up to an integer, at most 0 where it is
  negative, unbounded where it is \<open>Infinity\<close>), and it keeps the invariant.  The same
  holds of the state and the result of every call of \<open>crawl\<close>.
\<close>

theorem visited_set_dedup_and_budget:
  assumes inv: "crawl_inv P render options s"
    and d: "dispatch options batch s = (pending, s1)"
  shows "s1 = s\<lparr>visitedUrls := visitedUrls s @ pending\<rparr>
       \<and> distinct (visitedUrls s @ pending)
       \<and> processBatch P render finish b options batch s =
           foldl (\<lambda>st url. processUrl_resume P render b options url st) s1 (sort_key finish pending)
       \<and> mset (sort_key finish pending) = mset pending
       \<and> visitedUrls (processBatch P render finish b options batch s) = visitedUrls s @ pending
       \<and> distinct (map fst (linkMap (processBatch P render finish b options batch s)))
       \<and> within_budget (length (visitedUrls (processBatch P render finish b options batch s)))
           (page_budget options)
       \<and> crawl_inv P render options (processBatch P render finish b options batch s)
       \<and> (case crawl P render finish url opts of
            (r, s') \<Rightarrow>
              distinct (visitedUrls s') \<and> distinct (map fst (result_linkMap r))
              \<and> within_budget (length (visitedUrls s')) (page_budget (finalOptions opts)))"
proof -
  have 1: "s1 = s\<lparr>visitedUrls := visitedUrls s @ pending\<rparr>" by (rule dispatch_state[OF d])
  from inv have "distinct (visitedUrls s)" by (simp add: crawl_inv_def)
  then have 2: "distinct (visitedUrls s @ pending)" by (rule dispatch_distinct[OF d])
  have 3: "processBatch P render finish b options batch s =
           foldl (\<lambda>st url. processUrl_resume P render b options url st) s1 (sort_key finish pending)"
    by (rule processBatch_settle[OF d])
  have 4: "mset (sort_key finish pending) = mset pending" by simp
  have 5: "visitedUrls (processBatch P render finish b options batch s) = visitedUrls s @ pending"
    by (rule processBatch_visited[OF d])
  have 8: "crawl_inv P render options (processBatch P render finish b options batch s)"
    by (rule processBatch_inv[OF inv])
  then have 6: "distinct (map fst (linkMap (processBatch P render finish b options batch s)))"
    and 7: "within_budget (length (visitedUrls (processBatch P render finish b options batch s)))
           (page_budget options)"
    by (simp_all add: crawl_inv_def)
  obtain r s' where c: "crawl P render finish url opts = (r, s')"
    by (cases "crawl P render finish url opts")
  from crawl_state_inv[of P render opts finish url] c
  have "crawl_inv P render (finalOptions opts) s'" by simp
  moreover from crawl_result_of_state[of P render finish url opts] c
  have "result_linkMap r = linkMap s'" by simp
  ultimately have 9: "distinct (visitedUrls s') \<and> distinct (map fst (result_linkMap r))
              \<and> within_budget (length (visitedUrls s')) (page_budget (finalOptions opts))"
    by (simp add: crawl_inv_def)
  from 1 2 3 4 5 6 7 8 9 show ?thesis unfolding c by simp
qed

text \<open>
  Claim C4 as stated fails for \<open>maxPages = 0\<close>: \<open>0 || 100\<close> is 100, and the start URL is
  visited.  It fails for \<open>maxPages = 1.5\<close> too: a second URL is visited while the size, 1,
  is below 1.5.
\<close>

theorem visited_set_exceeds_maxPages:
  "maxPages (no_options\<lparr>maxPages := Given (Finite 0)\<rparr>) = Given (Finite 0)
   \<and> length (visitedUrls (snd (crawl plain_url (\<lambda>url. None) at_once ''https://example.com/''
        (no_options\<lparr>maxPages := Given (Finite 0)\<rparr>)))) = 1
   \<and> \<not> js_ge (Finite 0) (Finite 1)
   \<and> maxPages (no_options\<lparr>maxPages := Given (Finite (3 / 2))\<rparr>) = Given (Finite (3 / 2))
   \<and> length (visitedUrls (snd (crawl plain_url example_site at_once ''https://example.com/''
        (no_options\<lparr>maxPages := Given (Finite (3 / 2))\<rparr>)))) = 2
   \<and> \<not> js_ge (Finite (3 / 2)) (Finite 2)"
  using example_crawl_zero_budget example_crawl_fractional_budget
  by (simp add: no_options_def js_ge_def)

lemma example_dispatch:
  "dispatch (finalOptions no_options) [''https://example.com/a'', ''https://example.com/a'']
     \<lparr>visitedUrls = [''https://example.com/''], linkMap = [], queue = []\<rparr>
   = ([''https://example.com/a''],
      \<lparr>visitedUrls = [''https://example.com/'', ''https://example.com/a''], linkMap = [], queue = []\<rparr>)"
  by code_simp

lemma example_inv:
  "crawl_inv plain_url (\<lambda>url. None) (finalOptions no_options)
     \<lparr>visitedUrls = [''https://example.com/''], linkMap = [], queue = []\<rparr>"
  by (simp add: crawl_inv_def fetch_ok_def page_budget_def finalOptions_def no_options_def
      defaultOptions_def spread_def js_or_def within_budget_def)

text \<open>Claim C4 at a batch that holds the same URL twice.\<close>

theorem visited_set_dedup_and_budget_witness:
  "visitedUrls (processBatch plain_url (\<lambda>url. None) at_once example_base
       (finalOptions no_options) [''https://example.com/a'', ''https://example.com/a'']
       \<lparr>visitedUrls = [''https://example.com/''], linkMap = [], queue = []\<rparr>)
     = [''https://example.com/'', ''https://example.com/a'']
   \<and> distinct [''https://example.com/'', ''https://example.com/a'']"
  using visited_set_dedup_and_budget[OF example_inv example_dispatch,
      where finish = at_once and b = example_base and url = "''https://example.com/''"
        and opts = no_options]
  by simp

section \<open>normalizeUrl\<close>

lemma replace_slashes_hd:
  "replace_slashes p \<noteq> [] \<Longrightarrow> p \<noteq> [] \<and> hd (replace_slashes p) = hd p"
  by (cases p) auto

lemma replace_slashes_Nil [simp]: "replace_slashes p = [] \<longleftrightarrow> p = []"
  by (cases p) auto

lemma dropWhile_slash_hd:
  "dropWhile (\<lambda>d. d = CHR ''/'') cs \<noteq> [] \<Longrightarrow> hd (dropWhile (\<lambda>d. d = CHR ''/'') cs) \<noteq> CHR ''/''"
  using hd_dropWhile[of "\<lambda>d. d = CHR ''/''" cs] by simp

lemma no_double_slash_Cons:
  "no_double_slash (c # cs) \<longleftrightarrow>
     no_double_slash cs \<and> \<not> (c = CHR ''/'' \<and> cs \<noteq> [] \<and> hd cs = CHR ''/'')"
  by (cases cs) (auto simp: no_double_slash_def sublist_Cons_right)

lemma no_double_slash_Nil [simp]: "no_double_slash []"
  by (simp add: no_double_slash_def)

lemma replace_slashes_no_double: "no_double_slash (replace_slashes p)"
proof (induction p rule: replace_slashes.induct)
  case 1
  then show ?case by simp
next
  case (2 c cs)
  show ?case
  proof (cases "c = CHR ''/''")
    case True
    let ?r = "dropWhile (\<lambda>d. d = CHR ''/'') cs"
    have "replace_slashes ?r \<noteq> [] \<Longrightarrow> hd (replace_slashes ?r) \<noteq> CHR ''/''"
      using replace_slashes_hd[of ?r] dropWhile_slash_hd[of cs] by auto
    with 2 True show ?thesis by (auto simp: no_double_slash_Cons)
  next
    case False
    with 2 show ?thesis by (auto simp: no_double_slash_Cons)
  qed
qed

lemma replace_slashes_fixed: "no_double_slash p \<Longrightarrow> replace_slashes p = p"
proof (induction p rule: replace_slashes.induct)
  case 1
  then show ?case by simp
next
  case (2 c cs)
  from "2.prems" have n: "no_double_slash cs"
    and h: "\<not> (c = CHR ''/'' \<and> cs \<noteq> [] \<and> hd cs = CHR ''/'')"
    by (simp_all add: no_double_slash_Cons)
  show ?case
  proof (cases "c = CHR ''/''")
    case True
    with h have "dropWhile (\<lambda>d. d = CHR ''/'') cs = cs" by (cases cs) auto
    with 2 True n show ?thesis by simp
  next
    case False
    with 2 n show ?thesis by simp
  qed
qed

lemma replace_slashes_idem: "replace_slashes (replace_slashes p) = replace_slashes p"
  by (rule replace_slashes_fixed[OF replace_slashes_no_double])

lemma filter_dropWhile_slash:
  "filter (\<lambda>c. c \<noteq> CHR ''/'') (dropWhile (\<lambda>d. d = CHR ''/'') cs) = filter (\<lambda>c. c \<noteq> CHR ''/'') cs"
  by (induction cs) auto

lemma replace_slashes_keeps_others:
  "filter (\<lambda>c. c \<noteq> CHR ''/'') (replace_slashes p) = filter (\<lambda>c. c \<noteq> CHR ''/'') p"
  by (induction p rule: replace_slashes.induct) (auto simp: filter_dropWhile_slash)

lemma subseq_dropWhile: "subseq (dropWhile P xs) xs"
  by (induction xs) auto

lemma replace_slashes_subseq: "subseq (replace_slashes p) p"
proof (induction p rule: replace_slashes.induct)
  case 1
  then show ?case by simp
next
  case (2 c cs)
  show ?case
  proof (cases "c = CHR ''/''")
    case True
    with 2 have "subseq (replace_slashes (dropWhile (\<lambda>d. d = CHR ''/'') cs)) cs"
      using subseq_dropWhile[of "\<lambda>d. d = CHR ''/''" cs] subseq_order.order_trans by blast
    with True show ?thesis by simp
  next
    case False
    with 2 show ?thesis by simp
  qed
qed

lemma replace_slashes_append:
  "CHR ''/'' \<notin> set s \<Longrightarrow> replace_slashes (s @ t) = s @ replace_slashes t"
  by (induction s) auto

lemma dropWhile_slash_append:
  "CHR ''/'' \<notin> set s \<Longrightarrow> s \<noteq> [] \<Longrightarrow> dropWhile (\<lambda>d. d = CHR ''/'') (s @ t) = s @ t"
  by (cases s) auto

lemma compress_Cons_nonempty: "s \<noteq> [] \<Longrightarrow> compress (s # rest) = s # compress rest"
  by (auto simp: compress_def)

lemma compress_Cons_empty:
  "compress ([] # rest) = (if rest = [] then [[]] else compress rest)"
  by (auto simp: compress_def)

lemma compress_eq_Nil [simp]: "compress segs = [] \<longleftrightarrow> segs = []"
  by (auto simp: compress_def filter_empty_conv) (metis last_in_set)

lemma replace_slashes_ser:
  "list_all (\<lambda>seg. CHR ''/'' \<notin> set seg) segs \<Longrightarrow>
     replace_slashes (slash_join segs) = slash_join (compress segs)
     \<and> replace_slashes (dropWhile (\<lambda>d. d = CHR ''/'') (slash_join segs)) = tl (slash_join (compress segs))"
proof (induction segs)
  case Nil
  then show ?case by (simp add: compress_def)
next
  case (Cons s rest)
  from Cons.prems have s: "CHR ''/'' \<notin> set s" and r: "list_all (\<lambda>seg. CHR ''/'' \<notin> set seg) rest"
    by simp_all
  note IH = Cons.IH[OF r]
  show ?case
  proof (cases "s = []")
    case False
    have d: "dropWhile (\<lambda>d. d = CHR ''/'') (s @ slash_join rest) = s @ slash_join rest"
      by (rule dropWhile_slash_append[OF s False])
    show ?thesis
      using IH by (simp add: compress_Cons_nonempty[OF False] d replace_slashes_append[OF s])
  next
    case True
    show ?thesis
    proof (cases "rest = []")
      case True
      with \<open>s = []\<close> show ?thesis by (simp add: compress_def)
    next
      case False
      then have "compress rest \<noteq> []" by simp
      then obtain x xs where c: "compress rest = x # xs" by (cases "compress rest") auto
      with IH \<open>s = []\<close> False show ?thesis
        by (simp add: compress_Cons_empty)
    qed
  qed
qed

lemma path_buffers_segment:
  "list_all (\<lambda>c. \<not> is_separator sp c \<and> \<not> in_path_encode_set c) seg \<Longrightarrow>
     path_buffers sp buf (seg @ cs) = path_buffers sp (buf @ seg) cs"
  by (induction seg arbitrary: buf) (auto simp: percent_encode_def)

lemma path_buffers_ser:
  "list_all (\<lambda>seg. list_all (\<lambda>c. \<not> is_separator sp c \<and> \<not> in_path_encode_set c) seg) rest \<Longrightarrow>
     path_buffers sp buf (slash_join rest) = buf # rest"
proof (induction rest arbitrary: buf)
  case Nil
  then show ?case by simp
next
  case (Cons r rs)
  then show ?case
    using path_buffers_segment[of sp r "[]" "slash_join rs"]
    by (simp add: is_separator_def)
qed

lemma path_state_plain:
  "list_all (\<lambda>buf. \<not> is_single_dot buf \<and> \<not> is_double_dot buf) bufs \<Longrightarrow>
     path_state sch p bufs = p @ (if p = [] then fix_first sch bufs else bufs)"
proof (induction bufs arbitrary: p)
  case Nil
  then show ?case by (simp add: fix_first_def)
next
  case (Cons buf bufs)
  then show ?case
    by (auto simp: path_segment_def fix_first_def)
qed

lemma path_start_ser:
  assumes w: "list_all (wf_segment (is_special sch)) segs"
    and ne: "segs \<noteq> [] \<or> (\<not> is_special sch \<and> hst \<noteq> None)"
  shows "path_start sch hst (slash_join segs) = fix_first sch segs"
proof (cases segs)
  case Nil
  with ne show ?thesis by (simp add: path_start_def fix_first_def)
next
  case (Cons s rest)
  from w Cons
  have s: "list_all (\<lambda>c. \<not> is_separator (is_special sch) c \<and> \<not> in_path_encode_set c) s"
    and r: "list_all (\<lambda>seg. list_all (\<lambda>c. \<not> is_separator (is_special sch) c
                \<and> \<not> in_path_encode_set c) seg) rest"
    and nd: "list_all (\<lambda>buf. \<not> is_single_dot buf \<and> \<not> is_double_dot buf) (s # rest)"
    by (auto simp: wf_segment_def list_all_iff)
  have b: "path_buffers (is_special sch) [] (s @ slash_join rest) = s # rest"
    using path_buffers_segment[OF s, of "[]" "slash_join rest"] path_buffers_ser[OF r, of s] by simp
  have "path_start sch hst (slash_join segs) = path_state sch [] (path_buffers (is_special sch) [] (s @ slash_join rest))"
    by (simp add: path_start_def Cons)
  also have "\<dots> = fix_first sch (s # rest)"
    unfolding b using path_state_plain[OF nd, of sch "[]"] by simp
  finally show ?thesis by (simp add: Cons)
qed

lemma controls_encoded:
  "in_path_encode_set (CHR 0x09)" "in_path_encode_set (CHR 0x0A)" "in_path_encode_set (CHR 0x0D)"
  by code_simp+

lemma encode_set_tab: "is_tab_or_newline c \<Longrightarrow> in_path_encode_set c"
  by (auto simp: is_tab_or_newline_def controls_encoded)

lemma slash_not_encoded: "\<not> in_path_encode_set CHR ''/''" "\<not> is_tab_or_newline CHR ''/''"
  by code_simp+

lemma wf_segment_Nil [simp]: "wf_segment sp []"
  by (simp add: wf_segment_def is_single_dot_def is_double_dot_def)

lemma wf_compress:
  "list_all (wf_segment sp) segs \<Longrightarrow> list_all (wf_segment sp) (compress segs)"
  by (auto simp: compress_def list_all_iff)



lemma filter_tabs_ser:
  "list_all (wf_segment sp) segs \<Longrightarrow>
     filter (\<lambda>c. \<not> is_tab_or_newline c) (slash_join segs) = slash_join segs"
proof (induction segs)
  case Nil
  then show ?case by simp
next
  case (Cons s rest)
  then have "filter (\<lambda>c. \<not> is_tab_or_newline c) s = s"
    by (auto simp: wf_segment_def list_all_iff filter_id_conv dest: encode_set_tab)
  with Cons show ?case by (simp add: slash_not_encoded)
qed

lemma wf_no_slash:
  "list_all (wf_segment sp) segs \<Longrightarrow> list_all (\<lambda>seg. CHR ''/'' \<notin> set seg) segs"
  by (auto simp: wf_segment_def list_all_iff is_separator_def)

lemma normalized_segments:
  assumes p: "u_path u = Segments segs" and w: "wf_url u"
  shows "normalized u =
           u\<lparr>u_fragment := None, u_path := Segments (fix_first (u_scheme u) (compress segs))\<rparr>"
proof -
  from w p have ws: "list_all (wf_segment (is_special (u_scheme u))) segs"
    and ne: "segs \<noteq> [] \<or> (\<not> is_special (u_scheme u) \<and> u_host u \<noteq> None)"
    by (simp_all add: wf_url_def)
  have h: "set_hash [] u = u\<lparr>u_fragment := None\<rparr>" by (simp add: set_hash_def p)
  have g: "get_pathname (u\<lparr>u_fragment := None\<rparr>) = slash_join segs"
    by (simp add: get_pathname_def serialize_path_def p)
  have r: "replace_slashes (slash_join segs) = slash_join (compress segs)"
    using replace_slashes_ser[OF wf_no_slash[OF ws]] by simp
  have wc: "list_all (wf_segment (is_special (u_scheme u))) (compress segs)"
    by (rule wf_compress[OF ws])
  have f: "filter (\<lambda>c. \<not> is_tab_or_newline c) (slash_join (compress segs)) = slash_join (compress segs)"
    by (rule filter_tabs_ser[OF wc])
  have ne': "compress segs \<noteq> [] \<or> (\<not> is_special (u_scheme u) \<and> u_host u \<noteq> None)"
    using ne by simp
  have s: "path_start (u_scheme u) (u_host u) (slash_join (compress segs))
             = fix_first (u_scheme u) (compress segs)"
    by (rule path_start_ser[OF wc ne'])
  show ?thesis
    by (simp add: normalized_def h g r set_pathname_def p f s)
qed


lemma butlast_compress: "list_all (\<lambda>seg. seg \<noteq> []) (butlast (compress xs))"
  by (auto simp: compress_def list_all_iff butlast_append dest: in_set_butlastD)

lemma butlast_fix_first:
  "list_all (\<lambda>seg. seg \<noteq> []) (butlast xs) \<Longrightarrow>
     list_all (\<lambda>seg. seg \<noteq> []) (butlast (fix_first sch xs))"
  by (cases xs) (auto simp: fix_first_def)


lemma fix_first_eq_Nil [simp]: "fix_first sch xs = [] \<longleftrightarrow> xs = []"
  by (cases xs) (auto simp: fix_first_def)


lemma normalizeUrl_standard:
  "normalizeUrl (standard_url parser) url =
     (case parser url of None \<Rightarrow> url | Some u \<Rightarrow> serialize_url (normalized u))"
  by (simp add: normalizeUrl_def normalizeUrl_try_def standard_url_def normalized_def Let_def
      split: option.splits)

section \<open>The parser of plain URLs agrees with the serializer\<close>

text \<open>
  Every record \<open>plain_parser\<close> yields is well formed, and the serialization of its normalized
  record is parsed back to that record: \<open>plain_parser\<close> satisfies \<open>parser_agrees\<close> at every
  string.
\<close>

subsection \<open>The path state yields well-formed segments\<close>




lemma path_buffers_nonempty [simp]: "path_buffers sp buf input \<noteq> []"
  by (induction input arbitrary: buf) auto









subsection \<open>Code points of plain URLs\<close>









subsection \<open>Splitting a string at a delimiter\<close>

lemma dropWhile_notin: "d \<notin> set a \<Longrightarrow> dropWhile (\<lambda>c. c \<noteq> d) (a @ s) = dropWhile (\<lambda>c. c \<noteq> d) s"
  by (induction a) auto





lemma after_char_append: "d \<notin> set a \<Longrightarrow> after_char d (a @ s) = after_char d s"
  by (simp add: after_char_def dropWhile_notin)




subsection \<open>The path state keeps a property of the code points\<close>










subsection \<open>The plain parser and the serializer\<close>














section \<open>normalizeUrl: the claims\<close>

text \<open>
  Claim C7.  \<open>normalizeUrl\<close> returns its input where the constructor throws, and never
  throws itself: whatever the \<open>try\<close> block raises, the input is returned.  Where the
  input parses, the result is the serialization of the URL object after \<open>hash\<close> was set
  to the empty string and \<open>pathname\<close> to the old pathname with every run of slashes
  replaced by one: that string has no two slashes in a row and differs from the pathname
  only by dropped slashes.  With the URL class of the URL Standard, the serialized
  record has no fragment, and the path of a well-formed record loses its empty segments
  but a last one.
\<close>

theorem normalizeUrl_spec:
  "(url_new P url = None \<longrightarrow> normalizeUrl P url = url)
   \<and> (\<forall>urlObj. url_new P url = Some urlObj \<longrightarrow>
        normalizeUrl P url =
          url_toString P
            (url_set_pathname P (replace_slashes (url_pathname P (url_set_hash P [] urlObj)))
               (url_set_hash P [] urlObj)))
   \<and> (\<forall>e. normalizeUrl_try P url = Inl e \<longrightarrow> normalizeUrl P url = url)
   \<and> (\<forall>r. normalizeUrl_try P url = Inr r \<longrightarrow> normalizeUrl P url = r)
   \<and> \<not> sublist ''//'' (replace_slashes pathname)
   \<and> subseq (replace_slashes pathname) pathname
   \<and> filter (\<lambda>c. c \<noteq> CHR ''/'') (replace_slashes pathname) = filter (\<lambda>c. c \<noteq> CHR ''/'') pathname
   \<and> (\<forall>parser u. parser url = Some u \<longrightarrow>
        normalizeUrl (standard_url parser) url = serialize_url (normalized u)
        \<and> u_fragment (normalized u) = None
        \<and> (\<forall>segs. u_path u = Segments segs \<and> wf_url u \<longrightarrow>
              u_path (normalized u) = Segments (fix_first (u_scheme u) (compress segs))
              \<and> list_all (\<lambda>seg. seg \<noteq> []) (butlast (fix_first (u_scheme u) (compress segs)))))"
proof -
  have 1: "url_new P url = None \<longrightarrow> normalizeUrl P url = url"
    by (simp add: normalizeUrl_def normalizeUrl_try_def)
  have 2: "\<forall>urlObj. url_new P url = Some urlObj \<longrightarrow>
        normalizeUrl P url =
          url_toString P
            (url_set_pathname P (replace_slashes (url_pathname P (url_set_hash P [] urlObj)))
               (url_set_hash P [] urlObj))"
    by (simp add: normalizeUrl_def normalizeUrl_try_def Let_def)
  have 3: "\<forall>e. normalizeUrl_try P url = Inl e \<longrightarrow> normalizeUrl P url = url"
    and 4: "\<forall>r. normalizeUrl_try P url = Inr r \<longrightarrow> normalizeUrl P url = r"
    by (simp_all add: normalizeUrl_def)
  have 5: "\<not> sublist ''//'' (replace_slashes pathname)"
    using replace_slashes_no_double[of pathname] by (simp add: no_double_slash_def)
  have 8: "\<forall>parser u. parser url = Some u \<longrightarrow>
        normalizeUrl (standard_url parser) url = serialize_url (normalized u)
        \<and> u_fragment (normalized u) = None
        \<and> (\<forall>segs. u_path u = Segments segs \<and> wf_url u \<longrightarrow>
              u_path (normalized u) = Segments (fix_first (u_scheme u) (compress segs))
              \<and> list_all (\<lambda>seg. seg \<noteq> []) (butlast (fix_first (u_scheme u) (compress segs))))"
  proof (intro allI impI conjI)
    fix parser :: "string \<Rightarrow> URL option" and u :: URL
    assume p: "parser url = Some u"
    then show "normalizeUrl (standard_url parser) url = serialize_url (normalized u)"
      by (simp add: normalizeUrl_standard)
    have "u_fragment (set_hash [] u) = None"
      by (simp add: set_hash_def split: url_path.splits)
    then show "u_fragment (normalized u) = None"
      by (simp add: normalized_def set_pathname_def split: url_path.splits)
  next
    fix u :: URL and segs
    assume "u_path u = Segments segs \<and> wf_url u"
    then show "u_path (normalized u) = Segments (fix_first (u_scheme u) (compress segs))"
      by (simp add: normalized_segments)
  next
    fix u :: URL and segs
    show "list_all (\<lambda>seg. seg \<noteq> []) (butlast (fix_first (u_scheme u) (compress segs)))"
      by (rule butlast_fix_first[OF butlast_compress])
  qed
  from 1 2 3 4 5 8 replace_slashes_subseq[of pathname] replace_slashes_keeps_others[of pathname]
  show ?thesis by blast
qed

lemma example_normalizeUrl:
  "normalizeUrl plain_url ''https://example.com//a//b#top'' = ''https://example.com/a/b''
   \<and> normalizeUrl plain_url ''not a url'' = ''not a url''
   \<and> plain_parser ''not a url'' = None
   \<and> plain_parser ''https://example.com//a//b#top'' =
       Some (example_base\<lparr>u_path := Segments [[], ''a'', [], ''b''], u_fragment := Some ''top''\<rparr>)"
  by code_simp

text \<open>Claim C7 at a string that is not a URL and at a URL with doubled slashes and a fragment.\<close>

theorem normalizeUrl_spec_witness:
  "url_new plain_url ''not a url'' = None \<and> normalizeUrl plain_url ''not a url'' = ''not a url''
   \<and> normalizeUrl plain_url ''https://example.com//a//b#top'' = ''https://example.com/a/b''
   \<and> url_toString plain_url
        (url_set_pathname plain_url
          (replace_slashes (url_pathname plain_url (url_set_hash plain_url []
             (example_base\<lparr>u_path := Segments [[], ''a'', [], ''b''], u_fragment := Some ''top''\<rparr>))))
          (url_set_hash plain_url []
             (example_base\<lparr>u_path := Segments [[], ''a'', [], ''b''], u_fragment := Some ''top''\<rparr>)))
       = ''https://example.com/a/b''"
  using normalizeUrl_spec[of plain_url "''not a url''"]
    normalizeUrl_spec[of plain_url "''https://example.com//a//b#top''"]
    example_normalizeUrl
  by (simp add: plain_url_def standard_url_def)




section \<open>The link views and the admission to the queue\<close>

lemma getInternalLinks_loop_closed:
  "distinct (map fst lm) \<Longrightarrow> fst ` set acc \<inter> fst ` set lm = {} \<Longrightarrow>
   getInternalLinks_loop acc lm =
     acc @ filter (\<lambda>(u, ls). ls \<noteq> []) (map (\<lambda>(u, ls). (u, filter (\<lambda>l. isInternal l) ls)) lm)"
proof (induction lm arbitrary: acc)
  case Nil
  then show ?case by simp
next
  case (Cons p lm)
  obtain u ls where p: "p = (u, ls)" by (cases p)
  from Cons.prems have fresh: "u \<notin> fst ` set acc" and d: "distinct (map fst lm)"
    and u: "u \<notin> fst ` set lm" and dis: "fst ` set acc \<inter> fst ` set lm = {}"
    by (auto simp: p)
  show ?case
  proof (cases "filter (\<lambda>l. isInternal l) ls = []")
    case True
    then show ?thesis using Cons.IH[OF d dis] by (simp add: p)
  next
    case False
    have "fst ` set (AList.update u (filter (\<lambda>l. isInternal l) ls) acc) \<inter> fst ` set lm = {}"
      using dis u by (auto simp: dom_update)
    from Cons.IH[OF d this] False fresh show ?thesis
      by (simp add: p update_fresh)
  qed
qed

lemma getExternalLinks_loop_closed:
  "distinct (map fst lm) \<Longrightarrow> fst ` set acc \<inter> fst ` set lm = {} \<Longrightarrow>
   getExternalLinks_loop acc lm =
     acc @ filter (\<lambda>(u, ls). ls \<noteq> []) (map (\<lambda>(u, ls). (u, filter (\<lambda>l. \<not> isInternal l) ls)) lm)"
proof (induction lm arbitrary: acc)
  case Nil
  then show ?case by simp
next
  case (Cons p lm)
  obtain u ls where p: "p = (u, ls)" by (cases p)
  from Cons.prems have fresh: "u \<notin> fst ` set acc" and d: "distinct (map fst lm)"
    and u: "u \<notin> fst ` set lm" and dis: "fst ` set acc \<inter> fst ` set lm = {}"
    by (auto simp: p)
  show ?case
  proof (cases "filter (\<lambda>l. \<not> isInternal l) ls = []")
    case True
    then show ?thesis using Cons.IH[OF d dis] by (simp add: p)
  next
    case False
    have "fst ` set (AList.update u (filter (\<lambda>l. \<not> isInternal l) ls) acc) \<inter> fst ` set lm = {}"
      using dis u by (auto simp: dom_update)
    from Cons.IH[OF d this] False fresh show ?thesis
      by (simp add: p update_fresh)
  qed
qed

lemma map_of_filtered_view:
  "distinct (map fst lm) \<Longrightarrow>
   map_of (filter (\<lambda>(u, ls). ls \<noteq> []) (map (\<lambda>(u, ls). (u, f ls)) lm)) k =
     (case map_of lm k of None \<Rightarrow> None | Some ls \<Rightarrow> if f ls = [] then None else Some (f ls))"
  by (induction lm) (auto split: option.splits simp: rev_image_eqI map_of_eq_None_iff)

lemma keys_filtered_view:
  assumes "distinct (map fst lm)"
  shows "k \<in> fst ` set (filter (\<lambda>(u, ls). ls \<noteq> []) (map (\<lambda>(u, ls). (u, f ls)) lm)) \<longleftrightarrow>
     (\<exists>ls. map_of lm k = Some ls \<and> f ls \<noteq> [])"
proof -
  let ?X = "filter (\<lambda>(u, ls). ls \<noteq> []) (map (\<lambda>(u, ls). (u, f ls)) lm)"
  have "k \<in> fst ` set ?X \<longleftrightarrow> map_of ?X k \<noteq> None"
    by (simp only: map_of_eq_None_iff) simp
  also have "\<dots> \<longleftrightarrow> (\<exists>ls. map_of lm k = Some ls \<and> f ls \<noteq> [])"
    unfolding map_of_filtered_view[OF assms] by (auto split: option.splits)
  finally show ?thesis .
qed

lemma distinct_filtered_view:
  "distinct (map fst lm) \<Longrightarrow>
   distinct (map fst (filter (\<lambda>(u, ls). ls \<noteq> []) (map (\<lambda>(u, ls). (u, f ls)) lm)))"
  by (induction lm) (auto simp: rev_image_eqI)

text \<open>
  Claim C10.  For a Link Map (keys distinct, as in every \<open>Map\<close>), \<open>getInternalLinks\<close>
  maps a page to its links with \<open>isInternal\<close>, in their order, and \<open>getExternalLinks\<close> to
  the others; a page is a key of the view exactly when that list is not empty, so a page
  with only external links is no key of \<open>getInternalLinks\<close>.
\<close>

theorem link_views_filter_by_isInternal:
  assumes "distinct (map fst (linkMap s))"
  shows "map_of (getInternalLinks s) page =
           (case map_of (linkMap s) page of
              None \<Rightarrow> None
            | Some links \<Rightarrow>
                if filter (\<lambda>link. isInternal link) links = [] then None
                else Some (filter (\<lambda>link. isInternal link) links))
       \<and> map_of (getExternalLinks s) page =
           (case map_of (linkMap s) page of
              None \<Rightarrow> None
            | Some links \<Rightarrow>
                if filter (\<lambda>link. \<not> isInternal link) links = [] then None
                else Some (filter (\<lambda>link. \<not> isInternal link) links))
       \<and> (page \<in> fst ` set (getInternalLinks s) \<longleftrightarrow>
            (\<exists>links. map_of (linkMap s) page = Some links
               \<and> filter (\<lambda>link. isInternal link) links \<noteq> []))
       \<and> (page \<in> fst ` set (getExternalLinks s) \<longleftrightarrow>
            (\<exists>links. map_of (linkMap s) page = Some links
               \<and> filter (\<lambda>link. \<not> isInternal link) links \<noteq> []))
       \<and> distinct (map fst (getInternalLinks s)) \<and> distinct (map fst (getExternalLinks s))"
proof -
  have i: "getInternalLinks s =
      filter (\<lambda>(u, ls). ls \<noteq> []) (map (\<lambda>(u, ls). (u, filter (\<lambda>l. isInternal l) ls)) (linkMap s))"
    using getInternalLinks_loop_closed[OF assms, of "[]"] by (simp add: getInternalLinks_def)
  have e: "getExternalLinks s =
      filter (\<lambda>(u, ls). ls \<noteq> []) (map (\<lambda>(u, ls). (u, filter (\<lambda>l. \<not> isInternal l) ls)) (linkMap s))"
    using getExternalLinks_loop_closed[OF assms, of "[]"] by (simp add: getExternalLinks_def)
  note m = map_of_filtered_view[OF assms] and k = keys_filtered_view[OF assms]
    and d = distinct_filtered_view[OF assms]
  have 1: "map_of (getInternalLinks s) page =
           (case map_of (linkMap s) page of
              None \<Rightarrow> None
            | Some links \<Rightarrow>
                if filter (\<lambda>link. isInternal link) links = [] then None
                else Some (filter (\<lambda>link. isInternal link) links))"
    unfolding i by (rule m)
  have 2: "map_of (getExternalLinks s) page =
           (case map_of (linkMap s) page of
              None \<Rightarrow> None
            | Some links \<Rightarrow>
                if filter (\<lambda>link. \<not> isInternal link) links = [] then None
                else Some (filter (\<lambda>link. \<not> isInternal link) links))"
    unfolding e by (rule m)
  have 3: "page \<in> fst ` set (getInternalLinks s) \<longleftrightarrow>
            (\<exists>links. map_of (linkMap s) page = Some links
               \<and> filter (\<lambda>link. isInternal link) links \<noteq> [])"
    unfolding i by (rule k)
  have 4: "page \<in> fst ` set (getExternalLinks s) \<longleftrightarrow>
            (\<exists>links. map_of (linkMap s) page = Some links
               \<and> filter (\<lambda>link. \<not> isInternal link) links \<noteq> [])"
    unfolding e by (rule k)
  have 5: "distinct (map fst (getInternalLinks s))" unfolding i by (rule d)
  have 6: "distinct (map fst (getExternalLinks s))" unfolding e by (rule d)
  from 1 2 3 4 5 6 show ?thesis by blast
qed

lemma example_views:
  "distinct (map fst example_linkMap)
   \<and> getInternalLinks \<lparr>visitedUrls = [], linkMap = example_linkMap, queue = []\<rparr>
       = [(''https://example.com/'', [link_to ''https://example.com/a'' True])]
   \<and> getExternalLinks \<lparr>visitedUrls = [], linkMap = example_linkMap, queue = []\<rparr>
       = [(''https://example.com/'', [link_to ''https://other.org/'' False]),
          (''https://example.com/a'', [link_to ''https://other.org/'' False])]"
  by code_simp

text \<open>Claim C10 at a Link Map whose second page has one external link only.\<close>

theorem link_views_filter_by_isInternal_witness:
  "distinct (map fst example_linkMap)
   \<and> map_of (getInternalLinks \<lparr>visitedUrls = [], linkMap = example_linkMap, queue = []\<rparr>)
        ''https://example.com/a'' = None
   \<and> map_of example_linkMap ''https://example.com/a'' = Some [link_to ''https://other.org/'' False]
   \<and> ''https://example.com/a''
        \<notin> fst ` set (getInternalLinks \<lparr>visitedUrls = [], linkMap = example_linkMap, queue = []\<rparr>)"
  using link_views_filter_by_isInternal
          [of "\<lparr>visitedUrls = [], linkMap = example_linkMap, queue = []\<rparr>" "''https://example.com/a''"]
    example_views
  by (simp add: example_linkMap_def link_to_def)

text \<open>
  Claim C5.  \<open>shouldProcessUrl\<close> admits a normalized URL exactly when it parses, is not in
  the Visited Set, has the start URL's hostname unless \<open>sameDomain\<close> is not \<open>true\<close>,
  contains no exclude pattern, and contains an include pattern unless there is none; a
  URL that does not parse is not admitted.  When the fetch of a page succeeds,
  \<open>processUrl\<close> appends to the queue exactly the admitted normalized links of the page, in
  order; when it fails, nothing.
\<close>

theorem frontier_admission:
  "(shouldProcessUrl P s newUrl baseUrlObj options \<longleftrightarrow>
      (\<exists>urlObj. url_new P newUrl = Some urlObj
         \<and> newUrl \<notin> set (visitedUrls s)
         \<and> (sameDomain options \<noteq> Given True
              \<or> url_hostname P urlObj = url_hostname P baseUrlObj)
         \<and> (\<forall>pattern \<in> set (patterns_of (excludePatterns options)).
               \<not> includes_str newUrl pattern)
         \<and> (patterns_of (includePatterns options) = []
              \<or> (\<exists>pattern \<in> set (patterns_of (includePatterns options)).
                    includes_str newUrl pattern))))
   \<and> (url_new P newUrl = None \<longrightarrow> \<not> shouldProcessUrl P s newUrl baseUrlObj options)
   \<and> (url_new P url \<noteq> None \<and> render url = Some links \<longrightarrow>
        queue (processUrl_resume P render baseUrlObj options url s) =
          queue s @ filter (\<lambda>u. shouldProcessUrl P s u baseUrlObj options)
                      (map (\<lambda>link. normalizeUrl P (link_url link)) links))
   \<and> (\<not> fetch_ok P render url \<longrightarrow>
        queue (processUrl_resume P render baseUrlObj options url s) = queue s)"
proof -
  have 1: "shouldProcessUrl P s newUrl baseUrlObj options \<longleftrightarrow>
      (\<exists>urlObj. url_new P newUrl = Some urlObj
         \<and> newUrl \<notin> set (visitedUrls s)
         \<and> (sameDomain options \<noteq> Given True
              \<or> url_hostname P urlObj = url_hostname P baseUrlObj)
         \<and> (\<forall>pattern \<in> set (patterns_of (excludePatterns options)).
               \<not> includes_str newUrl pattern)
         \<and> (patterns_of (includePatterns options) = []
              \<or> (\<exists>pattern \<in> set (patterns_of (includePatterns options)).
                    includes_str newUrl pattern)))"
    by (cases "url_new P newUrl"; cases "excludePatterns options"; cases "includePatterns options")
       (auto simp: shouldProcessUrl_def set_has_def patterns_of_def list_ex_iff)
  have 2: "url_new P newUrl = None \<longrightarrow> \<not> shouldProcessUrl P s newUrl baseUrlObj options"
    by (simp add: shouldProcessUrl_def)
  have 3: "url_new P url \<noteq> None \<and> render url = Some links \<longrightarrow>
        queue (processUrl_resume P render baseUrlObj options url s) =
          queue s @ filter (\<lambda>u. shouldProcessUrl P s u baseUrlObj options)
                      (map (\<lambda>link. normalizeUrl P (link_url link)) links)"
    by (simp add: processUrl_resume_ok)
  have 4: "\<not> fetch_ok P render url \<longrightarrow>
        queue (processUrl_resume P render baseUrlObj options url s) = queue s"
    by (simp add: processUrl_resume_failed)
  from 1 2 3 4 show ?thesis by blast
qed

lemma example_admission:
  "queue (processUrl_resume plain_url example_site example_base (finalOptions no_options)
            ''https://example.com/'' example_state)
     = [''https://example.com/a'', ''https://example.com/broken'']
   \<and> shouldProcessUrl plain_url example_state ''https://example.com/a'' example_base
        (finalOptions no_options)
   \<and> \<not> shouldProcessUrl plain_url example_state ''https://example.com/doc.pdf'' example_base
        (finalOptions no_options)
   \<and> \<not> shouldProcessUrl plain_url example_state ''https://other.org/'' example_base
        (finalOptions no_options)
   \<and> \<not> shouldProcessUrl plain_url example_state ''not a url'' example_base
        (finalOptions no_options)
   \<and> url_new plain_url ''not a url'' = None
   \<and> url_new plain_url ''https://example.com/'' \<noteq> None
   \<and> normalizeUrl plain_url ''https://example.com//a#top'' = ''https://example.com/a''"
  by code_simp

text \<open>Claim C5 at the links of the example site's start page.\<close>

theorem frontier_admission_witness:
  "shouldProcessUrl plain_url example_state ''https://example.com/a'' example_base
        (finalOptions no_options)
   \<and> (\<exists>urlObj. url_new plain_url ''https://example.com/a'' = Some urlObj
         \<and> ''https://example.com/a'' \<notin> set (visitedUrls example_state)
         \<and> url_hostname plain_url urlObj = url_hostname plain_url example_base)
   \<and> url_new plain_url ''not a url'' = None
   \<and> \<not> shouldProcessUrl plain_url example_state ''not a url'' example_base (finalOptions no_options)
   \<and> queue (processUrl_resume plain_url example_site example_base (finalOptions no_options)
            ''https://example.com/'' example_state)
     = [''https://example.com/a'', ''https://example.com/broken'']"
proof -
  have sd: "sameDomain (finalOptions no_options) = Given True"
    by (simp add: finalOptions_def no_options_def defaultOptions_def spread_def)
  from frontier_admission[of plain_url example_state "''https://example.com/a''" example_base
      "finalOptions no_options" "''https://example.com/''" example_site "[]"] example_admission sd
  have "\<exists>urlObj. url_new plain_url ''https://example.com/a'' = Some urlObj
         \<and> ''https://example.com/a'' \<notin> set (visitedUrls example_state)
         \<and> url_hostname plain_url urlObj = url_hostname plain_url example_base"
    by blast
  with example_admission show ?thesis by simp
qed

section \<open>Failures\<close>

lemma settle_skips_failed:
  "foldl (\<lambda>st url. processUrl_resume P render b options url st) s urls =
   foldl (\<lambda>st url. processUrl_resume P render b options url st) s
     (filter (fetch_ok P render) urls)"
  by (induction urls arbitrary: s) (simp_all add: processUrl_resume_failed)

lemma normalizeUrl_unparsed: "url_new P url = None \<Longrightarrow> normalizeUrl P url = url"
  by (simp add: normalizeUrl_def normalizeUrl_try_def)

text \<open>
  Claim C6.  A fetch that fails leaves the state as it is: no Link Map entry, the URL
  still in the Visited Set where the dispatch put it, and the other fetches of the batch
  settle as if the failed ones were not there.  When the start URL parses, \<open>crawl\<close>
  reports success, and no visited URL whose fetch failed is a key of the Link Map.  When
  the (normalized) start URL does not parse, \<open>crawl\<close> returns \<open>success = false\<close>, an error
  message, an empty Link Map and zero totals.
\<close>

theorem crawl_failure_semantics:
  "(\<not> fetch_ok P render url \<longrightarrow> processUrl_resume P render b options url s = s)
   \<and> (processUrl_begin options url s = (True, started) \<longrightarrow>
        url \<in> set (visitedUrls started)
        \<and> url \<in> set (visitedUrls (processUrl_resume P render b options url started)))
   \<and> foldl (\<lambda>st url. processUrl_resume P render b options url st) s pending =
       foldl (\<lambda>st url. processUrl_resume P render b options url st) s
         (filter (fetch_ok P render) pending)
   \<and> (case crawl P render finish start opts of
        (r, s') \<Rightarrow>
          (url_new P (normalizeUrl P start) = None \<longrightarrow> r = failed_result start)
          \<and> (url_new P (normalizeUrl P start) \<noteq> None \<longrightarrow>
               success r \<and> error_message r = None
               \<and> (\<forall>u \<in> set (visitedUrls s').
                     \<not> fetch_ok P render u \<longrightarrow> u \<notin> fst ` set (result_linkMap r))))
   \<and> (url_new P start = None \<longrightarrow>
        fst (crawl P render finish start opts) = failed_result start)"
proof -
  have 1: "\<not> fetch_ok P render url \<longrightarrow> processUrl_resume P render b options url s = s"
    by (simp add: processUrl_resume_failed)
  have 2: "processUrl_begin options url s = (True, started) \<longrightarrow>
        url \<in> set (visitedUrls started)
        \<and> url \<in> set (visitedUrls (processUrl_resume P render b options url started))"
    using processUrl_begin_started[of options url s started] by auto
  have 3: "foldl (\<lambda>st url. processUrl_resume P render b options url st) s pending =
       foldl (\<lambda>st url. processUrl_resume P render b options url st) s
         (filter (fetch_ok P render) pending)"
    by (rule settle_skips_failed)
  obtain r s' where c: "crawl P render finish start opts = (r, s')"
    by (cases "crawl P render finish start opts")
  have 4: "url_new P (normalizeUrl P start) = None \<longrightarrow> r = failed_result start"
    using c by (auto simp: crawl_def failed_result_def Let_def)
  from crawl_state_inv[of P render opts finish start] c
  have "crawl_inv P render (finalOptions opts) s'" by simp
  moreover from crawl_result_of_state[of P render finish start opts] c
  have "result_linkMap r = linkMap s'" by simp
  ultimately have keys: "\<forall>u \<in> set (visitedUrls s').
                     \<not> fetch_ok P render u \<longrightarrow> u \<notin> fst ` set (result_linkMap r)"
    by (auto simp: crawl_inv_def)
  have 5: "url_new P (normalizeUrl P start) \<noteq> None \<longrightarrow> success r \<and> error_message r = None"
    using c by (auto simp: crawl_def Let_def)
  have 6: "url_new P start = None \<longrightarrow> fst (crawl P render finish start opts) = failed_result start"
    using 4 c by (simp add: normalizeUrl_unparsed)
  from 1 2 3 4 5 6 keys show ?thesis unfolding c by simp
qed

lemma example_failed_crawl:
  "url_new plain_url ''example'' = None
   \<and> fst (crawl plain_url example_site at_once ''example'' no_options) = failed_result ''example''"
  by code_simp

lemma example_fetch_ok:
  "\<not> fetch_ok plain_url example_site ''https://example.com/broken''"
  by code_simp

text \<open>Claim C6 at a start string that is not a URL and at a page whose fetch fails.\<close>

theorem crawl_failure_semantics_witness:
  "url_new plain_url ''example'' = None
   \<and> fst (crawl plain_url example_site at_once ''example'' no_options)
       = \<lparr>success = False, result_linkMap = [], totalPages = 0, totalLinks = 0,
          error_message = Some ''Invalid URL'', baseUrl = ''example''\<rparr>
   \<and> \<not> fetch_ok plain_url example_site ''https://example.com/broken''
   \<and> processUrl_resume plain_url example_site example_base (finalOptions no_options)
        ''https://example.com/broken''
        \<lparr>visitedUrls = [''https://example.com/'', ''https://example.com/broken''],
         linkMap = [], queue = []\<rparr>
       = \<lparr>visitedUrls = [''https://example.com/'', ''https://example.com/broken''],
          linkMap = [], queue = []\<rparr>"
  using crawl_failure_semantics[where P = plain_url and render = example_site
      and url = "''https://example.com/broken''" and b = example_base
      and options = "finalOptions no_options"
      and s = "\<lparr>visitedUrls = [''https://example.com/'', ''https://example.com/broken''],
         linkMap = [], queue = []\<rparr>"
      and started = "\<lparr>visitedUrls = [], linkMap = [], queue = []\<rparr>" and pending = "[]"
      and finish = at_once and start = "''example''" and opts = no_options]
    example_failed_crawl example_fetch_ok
  by (simp add: failed_result_def invalid_url_message_def)

section \<open>The tab pool: shutdown, release and cleanup\<close>

lemma createNewTab_fresh:
  "createNewTab now \<lparr>browser = Some b, tabs = [], maxTabs = m\<rparr> =
     (Inr \<lparr>page_no = next_page_no b, page_url = about_blank, on_close = [about_blank]\<rparr>,
      \<lparr>browser = Some (page_on_close (next_page_no b) about_blank (snd (newPage b))),
       tabs = [(about_blank, \<lparr>tab_id = about_blank, tab_url = about_blank, inUse = True,
                              createdAt = now, lastUsed = now\<rparr>)],
       maxTabs = m\<rparr>)"
  by (simp add: createNewTab_def newPage_def Let_def)

text \<open>
  Claim C2, as the code has it.  After \<open>close()\<close> on a running controller the browser
  handle is null and the tab map is empty, but nothing remembers that the pool was shut
  down: the next \<open>getTab()\<close> launches the browser again and, when the launch succeeds (and
  \<open>maxTabs\<close> is positive), creates and returns a new tab; it fails only when the launch
  fails.
\<close>

theorem close_then_getTab_relaunches:
  assumes "browser s \<noteq> None" and "0 < maxTabs s"
  shows "browser (close s) = None \<and> tabs (close s) = []
       \<and> getTab now None (close s) = (Inl BrowserInitFailed, close s)
       \<and> fst (getTab now (Some b) (close s)) =
           Inr \<lparr>page_no = next_page_no b, page_url = about_blank, on_close = [about_blank]\<rparr>
       \<and> map fst (tabs (snd (getTab now (Some b) (close s)))) = [about_blank]
       \<and> browser (snd (getTab now (Some b) (close s))) \<noteq> None"
proof -
  from assms obtain b0 where b0: "browser s = Some b0" by auto
  have c: "close s = \<lparr>browser = None, tabs = [], maxTabs = maxTabs s\<rparr>"
    using b0 by (simp add: close_def)
  have g: "getTab now (Some b) (close s) =
             createNewTab now \<lparr>browser = Some b, tabs = [], maxTabs = maxTabs s\<rparr>"
    using assms(2) by (simp add: c getTab_def initialize_def)
  have n: "getTab now None (close s) = (Inl BrowserInitFailed, close s)"
    by (simp add: c getTab_def initialize_def)
  show ?thesis
    unfolding g createNewTab_fresh using n by (simp add: c)
qed

lemma example_pool_one_tab:
  "pool_one_tab =
     \<lparr>browser = Some \<lparr>pages = [\<lparr>page_no = 0, page_url = about_blank, on_close = []\<rparr>,
                               \<lparr>page_no = 1, page_url = about_blank, on_close = [about_blank]\<rparr>],
                      next_page_no = 2\<rparr>,
      tabs = [(about_blank, \<lparr>tab_id = about_blank, tab_url = about_blank, inUse = True,
                             createdAt = 0, lastUsed = 0\<rparr>)],
      maxTabs = 10\<rparr>"
  by code_simp

text \<open>
  Claim C2 as stated fails: after \<open>close()\<close>, \<open>getTab()\<close> returns a page of a newly
  launched browser.
\<close>

theorem getTab_after_close_succeeds:
  "fst (getTab 9 (Some launched_browser) (close pool_one_tab))
     = Inr \<lparr>page_no = 1, page_url = about_blank, on_close = [about_blank]\<rparr>
   \<and> browser (close pool_one_tab) = None
   \<and> browser (snd (getTab 9 (Some launched_browser) (close pool_one_tab))) \<noteq> None"
  by (simp add: example_pool_one_tab close_def getTab_def initialize_def createNewTab_def
      newPage_def launched_browser_def Let_def)

text \<open>Claim C2 at a controller with one tab.\<close>

theorem close_then_getTab_relaunches_witness:
  "browser pool_one_tab \<noteq> None \<and> 0 < maxTabs pool_one_tab
   \<and> tabs (close pool_one_tab) = []
   \<and> getTab 9 None (close pool_one_tab) = (Inl BrowserInitFailed, close pool_one_tab)
   \<and> fst (getTab 9 (Some launched_browser) (close pool_one_tab))
       = Inr \<lparr>page_no = 1, page_url = about_blank, on_close = [about_blank]\<rparr>"
proof -
  have h: "browser pool_one_tab \<noteq> None" "0 < maxTabs pool_one_tab"
    by (simp_all add: example_pool_one_tab)
  from close_then_getTab_relaunches[OF h, of 9 launched_browser] h show ?thesis
    by (simp add: launched_browser_def)
qed

text \<open>
  Claim C3 at a saturated pool (\<open>maxTabs = 1\<close>, one tab, in use) whose page has
  navigated, as \<open>webCrawl.crawl\<close> leaves it: \<open>releaseTab\<close> looks the tab up under the
  page's present URL, finds nothing and changes nothing, and the following \<open>getTab\<close>
  times out.
\<close>

theorem releaseTab_after_navigation_frees_nothing:
  "browser pool_saturated
     = Some \<lparr>pages = [\<lparr>page_no = 0, page_url = about_blank, on_close = []\<rparr>, page_at_example],
             next_page_no = 2\<rparr>
   \<and> tabs pool_saturated
       = [(about_blank, \<lparr>tab_id = about_blank, tab_url = about_blank, inUse = True,
                          createdAt = 0, lastUsed = 0\<rparr>)]
   \<and> maxTabs pool_saturated = 1
   \<and> releaseTab 5 page_at_example pool_saturated = pool_saturated
   \<and> getTab 6 None (releaseTab 5 page_at_example pool_saturated)
       = (Inl TimeoutWaitingForTab, pool_saturated)"
  by code_simp

lemma find_idle_update:
  "list_all (\<lambda>(k, t). inUse t) ts \<Longrightarrow> k \<in> fst ` set ts \<Longrightarrow> \<not> inUse v \<Longrightarrow>
     find (\<lambda>(tabId, tabInfo). \<not> inUse tabInfo) (AList.update k v ts) = Some (k, v)"
  by (induction ts) auto

lemma find_page_url:
  "list_ex (\<lambda>p. page_url p = k) ps \<Longrightarrow>
     \<exists>p. find (\<lambda>p. page_url p = k) ps = Some p \<and> p \<in> set ps \<and> page_url p = k"
  by (induction ps) auto

text \<open>
  Where the released page still shows the URL its tab is registered under: in a pool
  whose tabs are all in use, \<open>releaseTab\<close> followed by \<open>getTab\<close> hands out an open page
  with that URL and creates no tab; the tab is marked in use again.
\<close>

theorem releaseTab_then_getTab_reuses:
  assumes b: "browser s = Some b"
    and sat: "list_all (\<lambda>(tabId, tabInfo). inUse tabInfo) (tabs s)"
    and reg: "map_of (tabs s) (page_url page) = Some tabInfo"
    and url: "tab_url tabInfo = page_url page"
    and opn: "list_ex (\<lambda>p. page_url p = page_url page) (pages b)"
  shows "\<exists>p. getTab now' launch (releaseTab now page s) =
               (Inr p, s\<lparr>tabs := AList.update (page_url page)
                                    (tabInfo\<lparr>inUse := True, lastUsed := now'\<rparr>) (tabs s)\<rparr>)
             \<and> p \<in> set (pages b) \<and> page_url p = page_url page"
proof -
  let ?k = "page_url page"
  let ?idle = "tabInfo\<lparr>inUse := False, lastUsed := now\<rparr>"
  have r: "releaseTab now page s = s\<lparr>tabs := AList.update ?k ?idle (tabs s)\<rparr>"
    by (simp add: releaseTab_def reg)
  from reg have kin: "?k \<in> fst ` set (tabs s)"
    by (metis map_of_eq_None_iff option.distinct(1))
  have f: "find (\<lambda>(tabId, tabInfo). \<not> inUse tabInfo) (AList.update ?k ?idle (tabs s)) = Some (?k, ?idle)"
    by (rule find_idle_update[OF sat kin]) simp
  from find_page_url[OF opn] obtain p where p: "find (\<lambda>p. page_url p = ?k) (pages b) = Some p"
    and pin: "p \<in> set (pages b)" and pu: "page_url p = ?k" by blast
  have "getTab now' launch (releaseTab now page s) =
          (Inr p, s\<lparr>tabs := AList.update ?k (tabInfo\<lparr>inUse := True, lastUsed := now'\<rparr>) (tabs s)\<rparr>)"
    by (simp add: r getTab_def initialize_def b f url p)
  with pin pu show ?thesis by blast
qed

lemma example_pool_reuse:
  "browser pool_one_tab = Some \<lparr>pages = [\<lparr>page_no = 0, page_url = about_blank, on_close = []\<rparr>,
                               \<lparr>page_no = 1, page_url = about_blank, on_close = [about_blank]\<rparr>],
                      next_page_no = 2\<rparr>
   \<and> list_all (\<lambda>(tabId, tabInfo). inUse tabInfo) (tabs pool_one_tab)
   \<and> map_of (tabs pool_one_tab) about_blank
       = Some \<lparr>tab_id = about_blank, tab_url = about_blank, inUse = True, createdAt = 0, lastUsed = 0\<rparr>"
  by (simp add: example_pool_one_tab)

text \<open>The reuse at a controller with one tab whose page has not navigated.\<close>

theorem releaseTab_then_getTab_reuses_witness:
  "length (tabs (snd (getTab 6 None
      (releaseTab 5 \<lparr>page_no = 1, page_url = about_blank, on_close = [about_blank]\<rparr> pool_one_tab))))
     = length (tabs pool_one_tab)
   \<and> (\<exists>p. fst (getTab 6 None
      (releaseTab 5 \<lparr>page_no = 1, page_url = about_blank, on_close = [about_blank]\<rparr> pool_one_tab))
        = Inr p \<and> page_url p = about_blank)"
proof -
  let ?b = "\<lparr>pages = [\<lparr>page_no = 0, page_url = about_blank, on_close = []\<rparr>,
                               \<lparr>page_no = 1, page_url = about_blank, on_close = [about_blank]\<rparr>],
                      next_page_no = 2\<rparr>"
  let ?t = "\<lparr>tab_id = about_blank, tab_url = about_blank, inUse = True, createdAt = 0, lastUsed = 0\<rparr>"
  let ?page = "\<lparr>page_no = 1, page_url = about_blank, on_close = [about_blank]\<rparr>"
  from example_pool_reuse have 1: "browser pool_one_tab = Some ?b"
    and 2: "list_all (\<lambda>(tabId, tabInfo). inUse tabInfo) (tabs pool_one_tab)"
    and 3: "map_of (tabs pool_one_tab) (page_url ?page) = Some ?t" by simp_all
  have 4: "tab_url ?t = page_url ?page" by simp
  have 5: "list_ex (\<lambda>p. page_url p = page_url ?page) (pages ?b)" by simp
  from releaseTab_then_getTab_reuses[OF 1 2 3 4 5, of 6 None 5]
  obtain p where g: "getTab 6 None (releaseTab 5 ?page pool_one_tab) =
               (Inr p, pool_one_tab\<lparr>tabs := AList.update (page_url ?page)
                                    (?t\<lparr>inUse := True, lastUsed := 6\<rparr>) (tabs pool_one_tab)\<rparr>)"
    and pu: "page_url p = page_url ?page" by blast
  have "length (tabs (snd (getTab 6 None (releaseTab 5 ?page pool_one_tab)))) = length (tabs pool_one_tab)"
    unfolding g by (simp add: example_pool_one_tab)
  moreover have "\<exists>p. fst (getTab 6 None (releaseTab 5 ?page pool_one_tab)) = Inr p \<and> page_url p = about_blank"
    unfolding g using pu by simp
  ultimately show ?thesis by blast
qed

text \<open>
  Claim C9 at two states of the controller.  In \<open>pool_idle_tab\<close> one tab was handed out
  (page 1) and released before its page navigated; more than 30 minutes later the tab
  is idle and old.  \<open>cleanupOldTabs\<close> looks for a page whose URL is the tab's id,
  \<open>about:blank\<close>, finds the blank page the browser was launched with (page 0), closes
  that page and deletes the entry: the page of the session stays open, in no tab.  In
  \<open>pool_idle_navigated\<close> the tab is idle and old as well, but no open page shows
  \<open>about:blank\<close> any more: \<open>cleanupOldTabs\<close> changes nothing, the tab and its page stay.
\<close>

theorem cleanupOldTabs_misses_the_session:
  "tabs pool_idle_tab
     = [(about_blank, \<lparr>tab_id = about_blank, tab_url = about_blank, inUse = False,
                        createdAt = 0, lastUsed = 1\<rparr>)]
   \<and> expired 2000000 (30 * 60 * 1000)
        \<lparr>tab_id = about_blank, tab_url = about_blank, inUse = False, createdAt = 0, lastUsed = 1\<rparr>
   \<and> browser pool_idle_tab
       = Some \<lparr>pages = [\<lparr>page_no = 0, page_url = about_blank, on_close = []\<rparr>,
                         \<lparr>page_no = 1, page_url = about_blank, on_close = [about_blank]\<rparr>],
               next_page_no = 2\<rparr>
   \<and> cleanupOldTabs 2000000 30 pool_idle_tab
       = \<lparr>browser = Some \<lparr>pages = [\<lparr>page_no = 1, page_url = about_blank, on_close = [about_blank]\<rparr>],
                          next_page_no = 2\<rparr>,
          tabs = [], maxTabs = 10\<rparr>
   \<and> tabs pool_idle_navigated
       = [(about_blank, \<lparr>tab_id = about_blank, tab_url = about_blank, inUse = False,
                          createdAt = 2000001, lastUsed = 2000002\<rparr>)]
   \<and> expired 9000000 (30 * 60 * 1000)
        \<lparr>tab_id = about_blank, tab_url = about_blank, inUse = False,
         createdAt = 2000001, lastUsed = 2000002\<rparr>
   \<and> cleanupOldTabs 9000000 30 pool_idle_navigated = pool_idle_navigated"
  by code_simp

end
